theory Spec2Isabelle
  imports Main "HOL-Library.Sublist" "HOL-Library.AList"
begin

chapter \<open>The SeqIO task-caching pipeline (\<^verbatim>\<open>seqio/scripts/cache_tasks_main.py\<close>)\<close>

text \<open>
  A shallow embedding of the script that dumps preprocessed tasks as cached files.
  A \<^verbatim>\<open>PCollection\<close> is a list: the order of the list stands for the arbitrary order in
  which a runner presents the elements, and every transform that the script applies is
  a function on lists. A Python exception is a value of type \<open>error\<close>; a function that
  can raise returns \<open>error + 'a\<close>, with \<open>Inl\<close> for the exception.
\<close>

section \<open>Definitions\<close>

subsection \<open>Exceptions and values\<close>

datatype error =
    AssertionError
  | ValueError
  | ZeroDivisionError
  | NotFoundError
  | re_error
  | Unsupported
  | IOError
  | Diverges

text \<open>
  The values a feature of an example takes after \<^verbatim>\<open>as_numpy_iterator\<close>: a numpy array
  with its dtype (one-dimensional; the elements are kept as integers, and the code looks at
  them only when the dtype is an integer one), a numpy scalar, or a byte string.
\<close>

datatype np_dtype = np_int32 | np_int64 | np_float32 | np_object

datatype py_value =
    ndarray np_dtype "int list"
  | np_scalar np_dtype
  | py_bytes string

text \<open>An example is a Python dict from feature names to values; so is a statistics dict.\<close>

type_synonym example = "(string \<times> py_value) list"
type_synonym stats_dict = "(string \<times> int) list"

subsection \<open>Python built-ins used by the script\<close>

text \<open>
  \<^verbatim>\<open>str.replace(old, new)\<close>: every occurrence of \<open>old\<close>, found from the left and not
  overlapping, becomes \<open>new\<close>. (With an empty \<open>old\<close>, Python puts \<open>new\<close> before every
  character and at the end.)
\<close>

function str_replace :: "string \<Rightarrow> string \<Rightarrow> string \<Rightarrow> string" where
  "str_replace old new s =
     (if old = [] then new @ concat (map (\<lambda>c. c # new) s)
      else if s = [] then []
      else if prefix old s then new @ str_replace old new (drop (length old) s)
      else hd s # str_replace old new (tl s))"
  by pat_completeness auto
termination
  by (relation "measure (\<lambda>(old, new, s). length s)") auto

declare str_replace.simps [simp del]

text \<open>\<^verbatim>\<open>sum\<close> and \<^verbatim>\<open>max\<close> of a list of integers; \<^verbatim>\<open>max([])\<close> raises.\<close>

definition py_sum :: "int list \<Rightarrow> error + int" where
  "py_sum vs = Inr (sum_list vs)"

fun py_max :: "int list \<Rightarrow> error + int" where
  "py_max [] = Inl ValueError"
| "py_max (v # vs) = Inr (fold max vs v)"

text \<open>
  \<^verbatim>\<open>dict.update\<close>: the entries of \<open>d\<close> are stored one by one, a key that is already
  there keeping its place and a new key going to the end.
\<close>

definition dict_update :: "('k \<times> 'v) list \<Rightarrow> ('k \<times> 'v) list \<Rightarrow> ('k \<times> 'v) list" where
  "dict_update merged d = fold (\<lambda>kv m. AList.update (fst kv) (snd kv) m) d merged"

subsection \<open>The Beam transforms used by the script\<close>

text \<open>
  \<^verbatim>\<open>Count.Globally\<close> gives one element, the number of elements (0 for an empty
  collection); \<^verbatim>\<open>Flatten\<close> is the union of collections; \<^verbatim>\<open>FlatMap\<close> the union of
  the results; \<^verbatim>\<open>Filter\<close> keeps the elements that satisfy the predicate.
\<close>

definition Count_Globally :: "'a list \<Rightarrow> int list" where
  "Count_Globally pcoll = [int (length pcoll)]"

definition Flatten :: "'a list list \<Rightarrow> 'a list" where
  "Flatten pcolls = concat pcolls"

definition FlatMap :: "('a \<Rightarrow> 'b list) \<Rightarrow> 'a list \<Rightarrow> 'b list" where
  "FlatMap fn pcoll = concat (map fn pcoll)"

text \<open>The first exception among the results, or all the results.\<close>

fun collect :: "(error + 'a) list \<Rightarrow> error + 'a list" where
  "collect [] = Inr []"
| "collect (Inl e # rs) = Inl e"
| "collect (Inr x # rs) = (case collect rs of Inl e \<Rightarrow> Inl e | Inr xs \<Rightarrow> Inr (x # xs))"

text \<open>
  \<^verbatim>\<open>CombinePerKey(fn)\<close>: one pair per key that occurs, holding \<open>fn\<close> of the values of
  that key. \<^verbatim>\<open>CombineGlobally(fn)\<close>: one element, \<open>fn\<close> of all the elements. The
  runner may apply \<open>fn\<close> to parts of the values and then to the partial results; the model
  applies it once to all of them, which is the same result for \<^verbatim>\<open>sum\<close>,
  \<^verbatim>\<open>max\<close> and \<^verbatim>\<open>_merge_dicts\<close>.
\<close>

definition values_of :: "'k \<Rightarrow> ('k \<times> 'v) list \<Rightarrow> 'v list" where
  "values_of k kvs = map snd (filter (\<lambda>kv. fst kv = k) kvs)"

definition CombinePerKey ::
  "('v list \<Rightarrow> error + 'v) \<Rightarrow> ('k \<times> 'v) list \<Rightarrow> error + ('k \<times> 'v) list" where
  "CombinePerKey fn kvs =
     collect (map (\<lambda>k. case fn (values_of k kvs) of Inl e \<Rightarrow> Inl e | Inr v \<Rightarrow> Inr (k, v))
                  (remdups (map fst kvs)))"

definition CombineGlobally :: "('a list \<Rightarrow> error + 'b) \<Rightarrow> 'a list \<Rightarrow> error + 'b list" where
  "CombineGlobally fn pcoll = (case fn pcoll of Inl e \<Rightarrow> Inl e | Inr y \<Rightarrow> Inr [y])"

subsection \<open>\<^verbatim>\<open>GetStats\<close>\<close>

text \<open>
  \<^verbatim>\<open>to_dict = lambda x: {x[0]: x[1]}\<close>, and the inner function \<^verbatim>\<open>_count\<close>:
  when the example has the feature, as a numpy array of dtype int32 or int64, it yields
  the key \<^verbatim>\<open>"%s_tokens" % feat\<close> with \<^verbatim>\<open>int(sum(ex[feat] > 1))\<close>, the number of
  elements greater than 1; otherwise it yields nothing.
\<close>

definition to_dict :: "string \<times> int \<Rightarrow> stats_dict" where
  "to_dict x = [(fst x, snd x)]"

definition count :: "string \<Rightarrow> example \<Rightarrow> (string \<times> int) list" where
  "count feat ex =
     (case map_of ex feat of
        Some (ndarray dtype xs) \<Rightarrow>
          if dtype \<in> {np_int32, np_int64}
          then [(feat @ ''_tokens'', int (length (filter (\<lambda>x. 1 < x) xs)))]
          else []
      | _ \<Rightarrow> [])"

definition count_tokens :: "example list \<Rightarrow> string \<Rightarrow> (string \<times> int) list" where
  "count_tokens pcoll feat = FlatMap (count feat) pcoll"

definition token_counts :: "string list \<Rightarrow> example list \<Rightarrow> (string \<times> int) list" where
  "token_counts output_features pcoll = Flatten (map (count_tokens pcoll) output_features)"

text \<open>The \<^verbatim>\<open>rename_max_stat\<close> step: \<^verbatim>\<open>(x[0].replace("tokens", "max_tokens"), x[1])\<close>.\<close>

definition rename_max_stat :: "string \<times> int \<Rightarrow> string \<times> int" where
  "rename_max_stat x = (str_replace ''tokens'' ''max_tokens'' (fst x), snd x)"

text \<open>
  \<^verbatim>\<open>_merge_dicts\<close>: the loop over the dicts, with its assertion that the keys merged so
  far and the keys of the next dict do not intersect.
\<close>

fun merge_loop :: "('k \<times> 'v) list \<Rightarrow> ('k \<times> 'v) list list \<Rightarrow> error + ('k \<times> 'v) list" where
  "merge_loop merged_dict [] = Inr merged_dict"
| "merge_loop merged_dict (d # dicts) =
     (if set (map fst merged_dict) \<inter> set (map fst d) \<noteq> {} then Inl AssertionError
      else merge_loop (dict_update merged_dict d) dicts)"

definition merge_dicts :: "('k \<times> 'v) list list \<Rightarrow> error + ('k \<times> 'v) list" where
  "merge_dicts dicts = merge_loop [] dicts"

text \<open>
  \<^verbatim>\<open>GetStats.expand\<close>: the example count, the token counts summed per key, the token
  counts maximised per key and renamed, each turned into a one-entry dict, and the dicts
  merged into one.
\<close>

definition GetStats :: "string list \<Rightarrow> example list \<Rightarrow> error + stats_dict list" where
  "GetStats output_features pcoll =
     (let example_counts = map to_dict (map (\<lambda>x. (''examples'', x)) (Count_Globally pcoll));
          tcs = token_counts output_features pcoll
      in case CombinePerKey py_sum tcs of
           Inl e \<Rightarrow> Inl e
         | Inr sums \<Rightarrow>
             (case CombinePerKey py_max tcs of
                Inl e \<Rightarrow> Inl e
              | Inr maxs \<Rightarrow>
                  (let total_tokens = map to_dict sums;
                       max_tokens = map to_dict (map rename_max_stat maxs)
                   in CombineGlobally merge_dicts
                        (Flatten [example_counts, total_tokens, max_tokens]))))"

subsection \<open>Notions the statements about \<^verbatim>\<open>GetStats\<close> use\<close>

text \<open>
  The integer array an example holds for a feature, if it holds one; the number of
  elements of an array that are greater than 1; and these numbers for a feature, over the
  examples that hold it as an integer array.
\<close>

definition int_array :: "string \<Rightarrow> example \<Rightarrow> int list option" where
  "int_array f ex =
     (case map_of ex f of
        Some (ndarray dtype xs) \<Rightarrow> if dtype \<in> {np_int32, np_int64} then Some xs else None
      | _ \<Rightarrow> None)"

definition greater_than_1 :: "int list \<Rightarrow> int" where
  "greater_than_1 xs = int (length (filter (\<lambda>x. 1 < x) xs))"

definition feature_counts :: "string \<Rightarrow> example list \<Rightarrow> int list" where
  "feature_counts f pcoll = map greater_than_1 (List.map_filter (int_array f) pcoll)"

text \<open>
  The keys of the dicts that \<^verbatim>\<open>GetStats\<close> merges: \<open>examples\<close>, the keys of the sums and
  the renamed keys of the maxima. \<open>merged_stats\<close> is the dict that holds all their entries.
\<close>

definition sum_keys :: "string list \<Rightarrow> example list \<Rightarrow> string list" where
  "sum_keys output_features pcoll = remdups (map fst (token_counts output_features pcoll))"

definition stat_keys :: "string list \<Rightarrow> example list \<Rightarrow> string list" where
  "stat_keys output_features pcoll =
     ''examples'' # sum_keys output_features pcoll @
       map (str_replace ''tokens'' ''max_tokens'') (sum_keys output_features pcoll)"

definition merged_stats :: "string list \<Rightarrow> example list \<Rightarrow> stats_dict" where
  "merged_stats output_features pcoll =
     (let tcs = token_counts output_features pcoll; ks = sum_keys output_features pcoll
      in (''examples'', int (length pcoll)) #
         map (\<lambda>k. (k, sum_list (values_of k tcs))) ks @
         map (\<lambda>k. (str_replace ''tokens'' ''max_tokens'' k, Max (set (values_of k tcs)))) ks)"

text \<open>Lists of keys no two of which share a key.\<close>

fun pairwise_disjoint :: "'k list list \<Rightarrow> bool" where
  "pairwise_disjoint [] = True"
| "pairwise_disjoint (ks # kss) =
     ((\<forall>ks' \<in> set kss. set ks \<inter> set ks' = {}) \<and> pairwise_disjoint kss)"

subsection \<open>Python regular expressions, as far as task patterns need them\<close>

text \<open>
  \<^verbatim>\<open>run_pipeline\<close> builds its two regular expressions as strings and hands them to
  \<^verbatim>\<open>re.compile\<close>, so the model compiles strings too: a lexer, a parser that follows
  the precedence of Python's syntax (postfix operators bind tighter than concatenation,
  concatenation tighter than \<open>|\<close>, parentheses group), and a matcher. The fragment is:
  literal characters, \<open>.\<close>, the postfix operators \<open>*\<close>, \<open>+\<close>, \<open>?\<close>, alternation,
  groups, \<^verbatim>\<open>\Z\<close> and a backslash before a character that is no letter and no digit. A
  pattern outside the fragment compiles to \<open>Unsupported\<close>, a malformed one to \<open>re_error\<close>
  (\<^verbatim>\<open>re.error\<close>).
\<close>

datatype token = TChar char | TDot | TStar | TPlus | TQuest | TBar | TLParen | TRParen | TEndZ

definition is_alnum :: "char \<Rightarrow> bool" where
  "is_alnum c =
     (let n = (of_char c :: nat)
      in (48 \<le> n \<and> n \<le> 57) \<or> (65 \<le> n \<and> n \<le> 90) \<or> (97 \<le> n \<and> n \<le> 122))"

definition lex_char :: "char \<Rightarrow> error + token" where
  "lex_char c =
     (if c = CHR ''.'' then Inr TDot
      else if c = CHR ''*'' then Inr TStar
      else if c = CHR ''+'' then Inr TPlus
      else if c = CHR ''?'' then Inr TQuest
      else if c = CHR ''|'' then Inr TBar
      else if c = CHR ''('' then Inr TLParen
      else if c = CHR '')'' then Inr TRParen
      else if c \<in> {CHR ''['', CHR '']'', CHR ''{'', CHR ''}'', CHR ''^'', CHR ''$''} then Inl Unsupported
      else Inr (TChar c))"

definition lex_escape :: "char \<Rightarrow> error + token" where
  "lex_escape d =
     (if d = CHR ''Z'' then Inr TEndZ
      else if is_alnum d then Inl Unsupported
      else Inr (TChar d))"

fun lex :: "string \<Rightarrow> error + token list" where
  "lex [] = Inr []"
| "lex (c # s) =
     (if c = CHR 0x5C then
        (case s of
           [] \<Rightarrow> Inl re_error
         | d # s' \<Rightarrow>
             (case lex_escape d of
                Inl e \<Rightarrow> Inl e
              | Inr t \<Rightarrow> (case lex s' of Inl e \<Rightarrow> Inl e | Inr ts \<Rightarrow> Inr (t # ts))))
      else
        (case lex_char c of
           Inl e \<Rightarrow> Inl e
         | Inr t \<Rightarrow> (case lex s of Inl e \<Rightarrow> Inl e | Inr ts \<Rightarrow> Inr (t # ts))))"

text \<open>
  The parser reads the tokens from the left with a stack of frames, one frame for every
  group that is open and one for the whole pattern. A frame holds the alternatives that
  are complete and the items of the alternative being read.
\<close>

datatype regex =
    Eps
  | Chr char
  | AnyChar
  | EndZ
  | Seq regex regex
  | Alt regex regex
  | Star regex
  | Plus regex
  | Opt regex
  | Group regex

record frame =
  alts :: "regex list"
  cur :: "regex list"

definition empty_frame :: frame where
  "empty_frame = \<lparr>alts = [], cur = []\<rparr>"

fun mk_seq :: "regex list \<Rightarrow> regex" where
  "mk_seq [] = Eps"
| "mk_seq (r # rs) = Seq r (mk_seq rs)"

fun mk_alt :: "regex list \<Rightarrow> regex" where
  "mk_alt [] = Eps"
| "mk_alt [r] = r"
| "mk_alt (r # rs) = Alt r (mk_alt rs)"

definition close_frame :: "frame \<Rightarrow> regex" where
  "close_frame f = mk_alt (alts f @ [mk_seq (cur f)])"

definition push_item :: "regex \<Rightarrow> frame \<Rightarrow> frame" where
  "push_item r f = f\<lparr>cur := cur f @ [r]\<rparr>"

fun repeatable :: "regex \<Rightarrow> error + unit" where
  "repeatable EndZ = Inl re_error"
| "repeatable (Star r) = Inl Unsupported"
| "repeatable (Plus r) = Inl Unsupported"
| "repeatable (Opt r) = Inl Unsupported"
| "repeatable r = Inr ()"

definition quantify :: "(regex \<Rightarrow> regex) \<Rightarrow> bool \<Rightarrow> frame list \<Rightarrow> error + frame list" where
  "quantify q is_quest st =
     (case st of
        [] \<Rightarrow> Inl re_error
      | f # fs \<Rightarrow>
          if cur f = [] then
            (if is_quest \<and> alts f = [] \<and> fs \<noteq> [] then Inl Unsupported else Inl re_error)
          else
            (case repeatable (last (cur f)) of
               Inl e \<Rightarrow> Inl e
             | Inr _ \<Rightarrow> Inr (f\<lparr>cur := butlast (cur f) @ [q (last (cur f))]\<rparr> # fs)))"

fun step :: "token \<Rightarrow> frame list \<Rightarrow> error + frame list" where
  "step tok [] = Inl re_error"
| "step (TChar c) (f # fs) = Inr (push_item (Chr c) f # fs)"
| "step TDot (f # fs) = Inr (push_item AnyChar f # fs)"
| "step TEndZ (f # fs) = Inr (push_item EndZ f # fs)"
| "step TStar (f # fs) = quantify Star False (f # fs)"
| "step TPlus (f # fs) = quantify Plus False (f # fs)"
| "step TQuest (f # fs) = quantify Opt True (f # fs)"
| "step TBar (f # fs) = Inr (\<lparr>alts = alts f @ [mk_seq (cur f)], cur = []\<rparr> # fs)"
| "step TLParen (f # fs) = Inr (empty_frame # f # fs)"
| "step TRParen [f] = Inl re_error"
| "step TRParen (f # g # fs) = Inr (push_item (Group (close_frame f)) g # fs)"

fun steps :: "token list \<Rightarrow> frame list \<Rightarrow> error + frame list" where
  "steps [] st = Inr st"
| "steps (tok # toks) st = (case step tok st of Inl e \<Rightarrow> Inl e | Inr st' \<Rightarrow> steps toks st')"

definition parse :: "token list \<Rightarrow> error + regex" where
  "parse toks =
     (case steps toks [empty_frame] of
        Inl e \<Rightarrow> Inl e
      | Inr [f] \<Rightarrow> Inr (close_frame f)
      | Inr _ \<Rightarrow> Inl re_error)"

definition re_compile :: "string \<Rightarrow> error + regex" where
  "re_compile pattern = (case lex pattern of Inl e \<Rightarrow> Inl e | Inr toks \<Rightarrow> parse toks)"

text \<open>
  The matcher: \<open>rems r s\<close> lists what is left of \<open>s\<close> after a match of \<open>r\<close> at its
  start, for every such match. \<open>pattern.match(s)\<close> is truthy when there is one,
  \<open>pattern.fullmatch(s)\<close> when one leaves nothing. \<open>.\<close> matches every character but the
  newline, \<^verbatim>\<open>\Z\<close> matches at the end of the string only. A repetition is unfolded once
  per character that is left, which is enough, since an iteration that consumes nothing
  adds no new remainder.
\<close>

fun star_rems :: "(string \<Rightarrow> string list) \<Rightarrow> nat \<Rightarrow> string \<Rightarrow> string list" where
  "star_rems f 0 s = [s]"
| "star_rems f (Suc n) s =
     s # concat (map (star_rems f n) (filter (\<lambda>t. length t < length s) (f s)))"

fun rems :: "regex \<Rightarrow> string \<Rightarrow> string list" where
  "rems Eps s = [s]"
| "rems (Chr c) s = (case s of [] \<Rightarrow> [] | d # s' \<Rightarrow> if d = c then [s'] else [])"
| "rems AnyChar s = (case s of [] \<Rightarrow> [] | d # s' \<Rightarrow> if d \<noteq> CHR 0x0A then [s'] else [])"
| "rems EndZ s = (if s = [] then [s] else [])"
| "rems (Seq r1 r2) s = concat (map (rems r2) (rems r1 s))"
| "rems (Alt r1 r2) s = rems r1 s @ rems r2 s"
| "rems (Star r) s = star_rems (rems r) (length s) s"
| "rems (Plus r) s = concat (map (\<lambda>t. star_rems (rems r) (length t) t) (rems r s))"
| "rems (Opt r) s = s # rems r s"
| "rems (Group r) s = rems r s"

definition re_match :: "regex \<Rightarrow> string \<Rightarrow> bool" where
  "re_match r s = (rems r s \<noteq> [])"

definition re_fullmatch :: "regex \<Rightarrow> string \<Rightarrow> bool" where
  "re_fullmatch r s = ([] \<in> set (rems r s))"

text \<open>
  \<^verbatim>\<open>str.join\<close>, the Python \<^verbatim>\<open>xs or default\<close> on a list that may be \<^verbatim>\<open>None\<close>, the
  string \<^verbatim>\<open>r"(%s\Z)" % r"\Z|".join(patterns)\<close>, and the selection of the task names:
  \<^verbatim>\<open>included_regex.match(t) and not excluded_regex.match(t)\<close>.
\<close>

fun join :: "string \<Rightarrow> string list \<Rightarrow> string" where
  "join sep [] = []"
| "join sep [x] = x"
| "join sep (x # xs) = x @ sep @ join sep xs"

definition py_or :: "'a list option \<Rightarrow> 'a list \<Rightarrow> 'a list" where
  "py_or xs other = (case xs of None \<Rightarrow> other | Some [] \<Rightarrow> other | Some ys \<Rightarrow> ys)"

definition anchored :: "string list \<Rightarrow> string" where
  "anchored patterns =
     ''('' @ join [CHR 0x5C, CHR ''Z'', CHR ''|''] patterns @ [CHR 0x5C, CHR ''Z''] @ '')''"

definition select_tasks ::
  "string list \<Rightarrow> string list option \<Rightarrow> string list option \<Rightarrow> error + string list" where
  "select_tasks names task_names excluded_tasks =
     (case re_compile (anchored (py_or task_names [''.*''])) of
        Inl e \<Rightarrow> Inl e
      | Inr included_regex \<Rightarrow>
          (case re_compile (anchored (py_or excluded_tasks [])) of
             Inl e \<Rightarrow> Inl e
           | Inr excluded_regex \<Rightarrow>
               Inr (filter (\<lambda>t. re_match included_regex t \<and> \<not> re_match excluded_regex t) names)))"

subsection \<open>Notions the statements about the selection use\<close>

text \<open>
  A pattern of the fragment that compiles on its own; a pattern that matches a whole name
  (\<^verbatim>\<open>re.fullmatch(p, t)\<close>); a pattern that is an alternation at its top level, outside
  every group; and the patterns of an argument that may be \<^verbatim>\<open>None\<close>.
\<close>

definition valid_pattern :: "string \<Rightarrow> bool" where
  "valid_pattern p = (case re_compile p of Inl e \<Rightarrow> False | Inr r \<Rightarrow> True)"

definition matches_whole_name :: "string \<Rightarrow> string \<Rightarrow> bool" where
  "matches_whole_name p t =
     (case re_compile p of Inl e \<Rightarrow> False | Inr r \<Rightarrow> re_fullmatch r t)"


definition patterns_of :: "string list option \<Rightarrow> string list" where
  "patterns_of ps = (case ps of None \<Rightarrow> [] | Some xs \<Rightarrow> xs)"

text \<open>
  For the proofs: a stack whose outermost frame has more alternatives in front and more
  frames below, and the alternatives a valid pattern contributes when it is anchored.
\<close>

definition ext :: "regex list \<Rightarrow> frame list \<Rightarrow> frame list \<Rightarrow> frame list" where
  "ext A below st = butlast st @ [(last st)\<lparr>alts := A @ alts (last st)\<rparr>] @ below"

definition anchored_alts :: "string \<Rightarrow> regex list" where
  "anchored_alts p =
     (case lex p of
        Inl e \<Rightarrow> []
      | Inr toks \<Rightarrow>
          (case steps toks [empty_frame] of
             Inr [f] \<Rightarrow> alts f @ [mk_seq (cur f @ [EndZ])]
           | _ \<Rightarrow> []))"

subsection \<open>Tasks and the registry\<close>

text \<open>
  What the script reads of a task: its name, whether it supports caching, the cache
  directory that was found for it (\<^verbatim>\<open>None\<close> when there is none), its splits, the names
  of its output features, its source (for a split, the shards and the examples of each
  shard), whether the source is a \<^verbatim>\<open>FunctionDataSource\<close>, and the preprocessing that
  comes before the cache. The \<^verbatim>\<open>seqio\<close> package itself is not part of the script: the
  registry, \<^verbatim>\<open>get_task_dir_from_name\<close> and the version are parameters.
\<close>

record task =
  name :: string
  supports_caching :: bool
  cache_dir :: "string option"
  splits :: "string list"
  output_features :: "string list"
  source :: "string \<Rightarrow> example list list"
  function_source :: bool
  preprocess_precache :: "example list \<Rightarrow> example list"

record seqio_env =
  TaskRegistry :: "task list"
  get_task_dir_from_name :: "string \<Rightarrow> string"
  seqio_version :: string

definition TaskRegistry_names :: "seqio_env \<Rightarrow> string list" where
  "TaskRegistry_names seqio = map name (TaskRegistry seqio)"

definition TaskRegistry_get :: "seqio_env \<Rightarrow> string \<Rightarrow> error + task" where
  "TaskRegistry_get seqio task_name =
     (case find (\<lambda>t. name t = task_name) (TaskRegistry seqio) of
        None \<Rightarrow> Inl ValueError
      | Some t \<Rightarrow> Inr t)"

subsection \<open>Files\<close>

text \<open>
  A file is named by its directory and by what it is: the record files of a split
  (\<^verbatim>\<open>get_cached_tfrecord_prefix\<close>, all shards together), the info file of a split
  (\<^verbatim>\<open>get_cached_info_path\<close>), the statistics file of a split
  (\<^verbatim>\<open>get_cached_stats_path\<close>) or the file \<^verbatim>\<open>COMPLETED\<close>. The contents are kept as
  data: the examples of the record files with the number of shards, the JSON documents of
  a JSON file, one per line, or the text of a text file. The file system is the list of the
  files that exist; a directory exists when a file is in it or below it.
\<close>

datatype json = JNone | JInt int | JStr string | JList "json list" | JDict "(string \<times> json) list"

datatype file_name =
    tfrecord_files string
  | info_json string
  | stats_json string
  | COMPLETED

datatype content =
    TFRecords nat "example list"
  | JsonLines "json list"
  | PlainText string

type_synonym path = "string \<times> file_name"
type_synonym filesystem = "(path \<times> content) list"

text \<open>\<^verbatim>\<open>os.path.join\<close> of two components, and a file in a directory or below it.\<close>

definition os_path_join :: "string \<Rightarrow> string \<Rightarrow> string" where
  "os_path_join a b =
     (if b \<noteq> [] \<and> hd b = CHR ''/'' then b
      else if a = [] \<or> last a = CHR ''/'' then a @ b
      else a @ ''/'' @ b)"

definition inside :: "string \<Rightarrow> path \<Rightarrow> bool" where
  "inside dir p = (fst p = dir \<or> prefix (dir @ ''/'') (fst p))"

text \<open>
  \<^verbatim>\<open>tf.io.gfile.rmtree\<close> deletes everything in the directory and below it, and raises
  when the directory does not exist. A write either succeeds and replaces the file, or
  fails; which writes fail is a parameter of a run.
\<close>

definition rmtree :: "string \<Rightarrow> filesystem \<Rightarrow> error + filesystem" where
  "rmtree dir fs =
     (if \<exists>p \<in> set (map fst fs). inside dir p
      then Inr (filter (\<lambda>pc. \<not> inside dir (fst pc)) fs)
      else Inl NotFoundError)"

definition write_file ::
  "(path \<Rightarrow> bool) \<Rightarrow> path \<Rightarrow> content \<Rightarrow> filesystem \<Rightarrow> error + filesystem" where
  "write_file io_ok p c fs = (if io_ok p then Inr (AList.update p c fs) else Inl IOError)"

subsection \<open>\<^verbatim>\<open>PreprocessTask\<close>\<close>

text \<open>
  Python's truth of an optional integer and of an optional string. \<^verbatim>\<open>int(a / b)\<close> for
  integers: the quotient rounded towards zero (the script divides in floating point,
  which is exact for the quotient's integer part as long as \<open>a\<close> is below \<open>2^53\<close>); division
  by zero raises.
\<close>

definition truthy_int :: "int option \<Rightarrow> bool" where
  "truthy_int x = (case x of None \<Rightarrow> False | Some n \<Rightarrow> n \<noteq> 0)"

definition truthy_str :: "string option \<Rightarrow> bool" where
  "truthy_str x = (case x of None \<Rightarrow> False | Some s \<Rightarrow> s \<noteq> [])"

definition int_truediv :: "int \<Rightarrow> nat \<Rightarrow> error + int" where
  "int_truediv a b =
     (if b = 0 then Inl ZeroDivisionError
      else if 0 \<le> a then Inr (a div int b)
      else Inr (- ((- a) div int b)))"

text \<open>
  \<^verbatim>\<open>ds.repeat().take(n)\<close>: the first \<open>n\<close> elements of the dataset repeated for ever. The
  repetition of an empty dataset is empty; a negative \<open>n\<close> takes everything, and iterating
  over that never ends.
\<close>

definition repeat_take :: "int \<Rightarrow> 'a list \<Rightarrow> error + 'a list" where
  "repeat_take n ds =
     (if ds = [] \<or> n = 0 then Inr []
      else if n < 0 then Inl Diverges
      else Inr (take (nat n) (concat (replicate (nat n) ds))))"

text \<open>
  \<^verbatim>\<open>_emit_examples\<close> for one shard: the dataset of the shard, cut to
  \<^verbatim>\<open>int(max_input_examples / len(shards))\<close> examples when \<^verbatim>\<open>max_input_examples\<close> is
  truthy, then preprocessed. A shard number that the source does not have is an error of
  the source. \<^verbatim>\<open>expand\<close> applies it to every shard number of the split and puts the
  results together.
\<close>

definition emit_examples :: "task \<Rightarrow> string \<Rightarrow> int option \<Rightarrow> nat \<Rightarrow> error + example list" where
  "emit_examples task split max_input_examples shard_index =
     (let shards = source task split in
      if length shards \<le> shard_index then Inl ValueError
      else
        let ds = shards ! shard_index in
        case (if truthy_int max_input_examples then
                (case int_truediv (the max_input_examples) (length shards) of
                   Inl e \<Rightarrow> Inl e
                 | Inr num_shard_examples \<Rightarrow> repeat_take num_shard_examples ds)
              else Inr ds) of
          Inl e \<Rightarrow> Inl e
        | Inr ds' \<Rightarrow> Inr (preprocess_precache task ds'))"

definition PreprocessTask :: "task \<Rightarrow> string \<Rightarrow> int option \<Rightarrow> error + example list" where
  "PreprocessTask task split max_input_examples =
     (let shards = [0 ..< length (source task split)] in
      case collect (map (emit_examples task split max_input_examples) shards) of
        Inl e \<Rightarrow> Inl e
      | Inr pcolls \<Rightarrow> Inr (Flatten pcolls))"

subsection \<open>\<^verbatim>\<open>GetInfo\<close>\<close>

text \<open>
  \<^verbatim>\<open>tf.constant(v)\<close> has the dtype of the value and one unknown dimension per axis.
  \<^verbatim>\<open>_info_dict\<close> gets the sample of at most one example: the empty dict for the empty
  sample, else the number of shards, the features and the version.
  \<^verbatim>\<open>Sample.FixedSizeGlobally(n)\<close> gives one element, a list of at most \<open>n\<close> elements of
  the collection (of the list in its arbitrary order, the first ones).
\<close>

fun dtype_name :: "np_dtype \<Rightarrow> string" where
  "dtype_name np_int32 = ''int32''"
| "dtype_name np_int64 = ''int64''"
| "dtype_name np_float32 = ''float32''"
| "dtype_name np_object = ''string''"

fun feature_info :: "py_value \<Rightarrow> json" where
  "feature_info (ndarray dtype xs) =
     JDict [(''shape'', JList [JNone]), (''dtype'', JStr (dtype_name dtype))]"
| "feature_info (np_scalar dtype) =
     JDict [(''shape'', JList []), (''dtype'', JStr (dtype_name dtype))]"
| "feature_info (py_bytes b) =
     JDict [(''shape'', JList []), (''dtype'', JStr ''string'')]"

definition info_dict :: "seqio_env \<Rightarrow> nat \<Rightarrow> example list \<Rightarrow> error + json" where
  "info_dict seqio num_shards ex =
     (if ex = [] then Inr (JDict [])
      else if length ex \<noteq> 1 then Inl AssertionError
      else Inr (JDict
        [(''num_shards'', JInt (int num_shards)),
         (''features'', JDict (map (\<lambda>kv. (fst kv, feature_info (snd kv))) (hd ex))),
         (''seqio_version'', JStr (seqio_version seqio))]))"

definition Sample_FixedSizeGlobally :: "nat \<Rightarrow> 'a list \<Rightarrow> 'a list list" where
  "Sample_FixedSizeGlobally n pcoll = [take n pcoll]"

definition GetInfo :: "seqio_env \<Rightarrow> nat \<Rightarrow> example list \<Rightarrow> error + json list" where
  "GetInfo seqio num_shards pcoll =
     collect (map (info_dict seqio num_shards) (Sample_FixedSizeGlobally 1 pcoll))"

text \<open>A statistics dict as a JSON document.\<close>

definition stats_json_of :: "stats_dict \<Rightarrow> json" where
  "stats_json_of d = JDict (map (\<lambda>kv. (fst kv, JInt (snd kv))) d)"

subsection \<open>\<^verbatim>\<open>run_pipeline\<close>: the loop over the tasks\<close>

text \<open>
  \<^verbatim>\<open>run_pipeline\<close> deletes directories, logs, collects the output directories and adds
  transforms to the pipeline; the pipeline runs after it has returned. The state of the
  loop holds the output directories, the tasks whose transforms were added (with what the
  transforms were built from), the files and the log.
\<close>

record task_plan =
  plan_task :: task
  plan_output_dir :: string
  plan_max_input_examples :: "int option"
  plan_completed_file_contents :: string

datatype level = INFO | WARNING | PRINT

datatype message =
    Skipping_no_caching string
  | Skipping_cached string string
  | Overwriting string string
  | Not_overwriting string string
  | Skipping_no_splits string
  | Caching_task string "string list"
  | FunctionDataSource_warning string

record run_state =
  output_dirs :: "string list"
  plans :: "task_plan list"
  files :: filesystem
  log :: "(level \<times> message) list"

definition logging :: "level \<Rightarrow> message \<Rightarrow> run_state \<Rightarrow> run_state" where
  "logging l m st = st\<lparr>log := log st @ [(l, m)]\<rparr>"

text \<open>
  How a part of the loop body ends: it goes on with the body, it goes on with the next
  task (\<^verbatim>\<open>continue\<close>), or it raises.
\<close>

datatype flow = Next run_state | Continue run_state | Raise error run_state

text \<open>The branch \<^verbatim>\<open>if task_cache_dir and overwrite\<close> of the body.\<close>

definition overwrite_check :: "bool \<Rightarrow> task \<Rightarrow> string \<Rightarrow> run_state \<Rightarrow> flow" where
  "overwrite_check overwrite task output_dir st =
     (if truthy_str (cache_dir task) \<and> overwrite then
        (if cache_dir task = Some output_dir then
           (let st' = logging WARNING (Overwriting (name task) output_dir) st
            in case rmtree output_dir (files st') of
                 Inl e \<Rightarrow> Raise e st'
               | Inr fs \<Rightarrow> Next (st'\<lparr>files := fs\<rparr>))
         else
           Continue (logging WARNING (Not_overwriting (the (cache_dir task)) output_dir) st))
      else Next st)"

text \<open>
  The end of the body, for a task that is cached now: the print, the output directory, the
  warning about a function source, and the transforms of every split and of the file
  \<^verbatim>\<open>COMPLETED\<close>.
\<close>

definition add_task :: "task \<Rightarrow> string \<Rightarrow> int option \<Rightarrow> string \<Rightarrow> run_state \<Rightarrow> run_state" where
  "add_task task output_dir max_input_examples completed_file_contents st =
     (let st1 = logging PRINT (Caching_task (name task) (splits task)) st;
          st2 = st1\<lparr>output_dirs := output_dirs st1 @ [output_dir]\<rparr>;
          st3 = (if function_source task
                 then logging WARNING (FunctionDataSource_warning (name task)) st2 else st2)
      in st3\<lparr>plans := plans st3 @
           [\<lparr>plan_task = task, plan_output_dir = output_dir,
             plan_max_input_examples = max_input_examples,
             plan_completed_file_contents = completed_file_contents\<rparr>]\<rparr>)"

definition loop_body ::
  "seqio_env \<Rightarrow> string \<Rightarrow> int option \<Rightarrow> bool \<Rightarrow> string \<Rightarrow> task \<Rightarrow> run_state \<Rightarrow> flow" where
  "loop_body seqio cache_root max_input_examples overwrite completed_file_contents task st =
     (if \<not> supports_caching task then
        Continue (logging INFO (Skipping_no_caching (name task)) st)
      else
        let task_cache_dir = cache_dir task;
            output_dir = os_path_join cache_root (get_task_dir_from_name seqio (name task))
        in
          if truthy_str task_cache_dir \<and> \<not> overwrite then
            Continue (logging INFO (Skipping_cached (name task) (the task_cache_dir)) st)
          else
            (case overwrite_check overwrite task output_dir st of
               Continue st' \<Rightarrow> Continue st'
             | Raise e st' \<Rightarrow> Raise e st'
             | Next st' \<Rightarrow>
                 if splits task = [] then
                   Continue (logging WARNING (Skipping_no_splits (name task)) st')
                 else
                   Next (add_task task output_dir max_input_examples completed_file_contents st')))"

fun task_loop ::
  "seqio_env \<Rightarrow> string \<Rightarrow> int option \<Rightarrow> bool \<Rightarrow> string \<Rightarrow> string list \<Rightarrow> run_state \<Rightarrow>
   error option \<times> run_state" where
  "task_loop seqio cache_root max_input_examples overwrite completed_file_contents [] st = (None, st)"
| "task_loop seqio cache_root max_input_examples overwrite completed_file_contents (task_name # rest) st =
     (case TaskRegistry_get seqio task_name of
        Inl e \<Rightarrow> (Some e, st)
      | Inr task \<Rightarrow>
          (case loop_body seqio cache_root max_input_examples overwrite completed_file_contents task st of
             Raise e st' \<Rightarrow> (Some e, st')
           | Continue st' \<Rightarrow>
               task_loop seqio cache_root max_input_examples overwrite completed_file_contents rest st'
           | Next st' \<Rightarrow>
               task_loop seqio cache_root max_input_examples overwrite completed_file_contents rest st'))"

text \<open>
  \<^verbatim>\<open>run_pipeline\<close>, on the files \<open>fs\<close>. The parameter \<^verbatim>\<open>cache_dir\<close> is called
  \<open>cache_root\<close> here; \<^verbatim>\<open>None\<close> for \<^verbatim>\<open>completed_file_contents\<close> is the argument left out,
  whose default is the empty string. The result is the exception, if one was raised, and
  the state; \<^verbatim>\<open>run_pipeline\<close> returns the output directories of the state.
\<close>

definition run_pipeline ::
  "seqio_env \<Rightarrow> filesystem \<Rightarrow> string list option \<Rightarrow> string \<Rightarrow> int option \<Rightarrow>
   string list option \<Rightarrow> bool \<Rightarrow> string option \<Rightarrow> error option \<times> run_state" where
  "run_pipeline seqio fs task_names cache_root max_input_examples excluded_tasks overwrite
     completed_file_contents =
     (let st = \<lparr>output_dirs = [], plans = [], files = fs, log = []\<rparr>
      in case select_tasks (TaskRegistry_names seqio) task_names excluded_tasks of
           Inl e \<Rightarrow> (Some e, st)
         | Inr selected \<Rightarrow>
             task_loop seqio cache_root max_input_examples overwrite
               (case completed_file_contents of None \<Rightarrow> [] | Some c \<Rightarrow> c) selected st)"

subsection \<open>The transforms of a task, run\<close>

text \<open>
  The transforms that write, for one task: per split the record files, the info file and
  the statistics file, and the file \<^verbatim>\<open>COMPLETED\<close>. \<^verbatim>\<open>completion_values\<close> is the list
  that the loop over the splits fills, three transforms per split.
\<close>

datatype node = write_tfrecord string | write_info string | write_stats string | write_completed_file

definition completion_values :: "task_plan \<Rightarrow> node list" where
  "completion_values tp =
     concat (map (\<lambda>split. [write_tfrecord split, write_info split, write_stats split])
                 (splits (plan_task tp)))"

text \<open>
  \<^verbatim>\<open>Filter\<close>, and the text that \<^verbatim>\<open>WriteToText\<close> writes into its one file: the header,
  then the elements, each followed by a newline when \<^verbatim>\<open>append_trailing_newlines\<close> is
  set (the header too).
\<close>

definition Filter :: "('a \<Rightarrow> bool) \<Rightarrow> 'a list \<Rightarrow> 'a list" where
  "Filter fn pcoll = filter fn pcoll"

definition WriteToText :: "string list \<Rightarrow> bool \<Rightarrow> string option \<Rightarrow> string" where
  "WriteToText lines append_trailing_newlines header =
     (case header of
        None \<Rightarrow> []
      | Some h \<Rightarrow> h @ (if append_trailing_newlines then [CHR 0x0A] else [])) @
     concat (map (\<lambda>l. l @ (if append_trailing_newlines then [CHR 0x0A] else [])) lines)"

text \<open>
  What is outside the script in a run: which writes succeed, and which elements a writing
  transform puts into its output collection (the names of the files it wrote).
\<close>

record runner =
  io_ok :: "path \<Rightarrow> bool"
  emitted :: "node \<Rightarrow> string list"

text \<open>
  The file and the contents that a transform computes. The three transforms of a split
  read the examples of \<^verbatim>\<open>PreprocessTask\<close>; the last one gets the output collections
  of the completion values, flattens them, drops every element and writes the header
  \<^verbatim>\<open>completed_file_contents\<close> with no newline.
\<close>

definition node_output ::
  "seqio_env \<Rightarrow> runner \<Rightarrow> task_plan \<Rightarrow> node \<Rightarrow> error + path \<times> content" where
  "node_output seqio r tp n =
     (let task = plan_task tp; output_dir = plan_output_dir tp
      in case n of
           write_tfrecord split \<Rightarrow>
             (case PreprocessTask task split (plan_max_input_examples tp) of
                Inl e \<Rightarrow> Inl e
              | Inr examples \<Rightarrow>
                  Inr ((output_dir, tfrecord_files split),
                       TFRecords (length (source task split)) examples))
         | write_info split \<Rightarrow>
             (case PreprocessTask task split (plan_max_input_examples tp) of
                Inl e \<Rightarrow> Inl e
              | Inr examples \<Rightarrow>
                  (case GetInfo seqio (length (source task split)) examples of
                     Inl e \<Rightarrow> Inl e
                   | Inr infos \<Rightarrow> Inr ((output_dir, info_json split), JsonLines infos)))
         | write_stats split \<Rightarrow>
             (case PreprocessTask task split (plan_max_input_examples tp) of
                Inl e \<Rightarrow> Inl e
              | Inr examples \<Rightarrow>
                  (case GetStats (output_features task) examples of
                     Inl e \<Rightarrow> Inl e
                   | Inr stats \<Rightarrow>
                       Inr ((output_dir, stats_json split), JsonLines (map stats_json_of stats))))
         | write_completed_file \<Rightarrow>
             Inr ((output_dir, COMPLETED),
                  PlainText
                    (WriteToText
                       (Filter (\<lambda>_. False) (Flatten (map (emitted r) (completion_values tp))))
                       False (Some (plan_completed_file_contents tp)))))"

text \<open>
  The runner: a transform runs once, and only when all the collections it reads are
  complete; it completes when it has computed and written its file, and it fails when the
  computation raises or the write fails. A failed transform never completes, so what
  reads its output never runs. The transforms may run in any order and any number of
  attempts: a schedule is the list of the transforms that the runner tries, one after the
  other.
\<close>

record exec_state =
  disk :: filesystem
  completed :: "node list"
  failed :: "node list"

definition inputs :: "task_plan \<Rightarrow> node \<Rightarrow> node list" where
  "inputs tp n = (case n of write_completed_file \<Rightarrow> completion_values tp | _ \<Rightarrow> [])"

definition run_node ::
  "seqio_env \<Rightarrow> runner \<Rightarrow> task_plan \<Rightarrow> node \<Rightarrow> exec_state \<Rightarrow> exec_state" where
  "run_node seqio r tp n st =
     (if n \<notin> set (completion_values tp) \<union> {write_completed_file} then st
      else if n \<in> set (completed st) \<union> set (failed st) then st
      else if \<not> set (inputs tp n) \<subseteq> set (completed st) then st
      else
        (case node_output seqio r tp n of
           Inl e \<Rightarrow> st\<lparr>failed := n # failed st\<rparr>
         | Inr (p, c) \<Rightarrow>
             (case write_file (io_ok r) p c (disk st) of
                Inl e \<Rightarrow> st\<lparr>failed := n # failed st\<rparr>
              | Inr fs \<Rightarrow> st\<lparr>disk := fs, completed := n # completed st\<rparr>)))"

definition run_plan ::
  "seqio_env \<Rightarrow> runner \<Rightarrow> task_plan \<Rightarrow> node list \<Rightarrow> exec_state \<Rightarrow> exec_state" where
  "run_plan seqio r tp schedule st = fold (run_node seqio r tp) schedule st"

definition start :: "filesystem \<Rightarrow> exec_state" where
  "start fs = \<lparr>disk = fs, completed = [], failed = []\<rparr>"

subsection \<open>Notions the statements about \<^verbatim>\<open>run_pipeline\<close> use\<close>

text \<open>
  The output directory of a task, as the loop body computes it; a task whose cache the
  loop deletes (it supports caching, \<^verbatim>\<open>overwrite\<close> is set, and the cache directory found
  for it is its output directory); a task whose transforms were added as the loop body
  adds them; and the invariant of the loop: the output directories are those of the added
  tasks, every added task is one that is cached now, and a file that is in no directory
  that the loop deletes is as it was.
\<close>

definition output_dir_of :: "seqio_env \<Rightarrow> string \<Rightarrow> task \<Rightarrow> string" where
  "output_dir_of seqio cache_root task =
     os_path_join cache_root (get_task_dir_from_name seqio (name task))"

definition overwrites_in_place :: "seqio_env \<Rightarrow> string \<Rightarrow> bool \<Rightarrow> task \<Rightarrow> bool" where
  "overwrites_in_place seqio cache_root overwrite task \<longleftrightarrow>
     supports_caching task \<and> overwrite \<and> truthy_str (cache_dir task) \<and>
     cache_dir task = Some (output_dir_of seqio cache_root task)"

definition cached_now :: "seqio_env \<Rightarrow> string \<Rightarrow> bool \<Rightarrow> task_plan \<Rightarrow> bool" where
  "cached_now seqio cache_root overwrite tp \<longleftrightarrow>
     supports_caching (plan_task tp) \<and> splits (plan_task tp) \<noteq> [] \<and>
     plan_output_dir tp = output_dir_of seqio cache_root (plan_task tp) \<and>
     (truthy_str (cache_dir (plan_task tp)) \<longrightarrow>
        overwrite \<and> cache_dir (plan_task tp) = Some (output_dir_of seqio cache_root (plan_task tp)))"

definition loop_invariant :: "seqio_env \<Rightarrow> string \<Rightarrow> bool \<Rightarrow> filesystem \<Rightarrow> run_state \<Rightarrow> bool" where
  "loop_invariant seqio cache_root overwrite fs st \<longleftrightarrow>
     output_dirs st = map plan_output_dir (plans st) \<and>
     (\<forall>tp \<in> set (plans st). cached_now seqio cache_root overwrite tp \<and>
         plan_task tp \<in> set (TaskRegistry seqio)) \<and>
     (\<forall>p. (\<forall>t \<in> set (TaskRegistry seqio).
              overwrites_in_place seqio cache_root overwrite t \<longrightarrow>
              \<not> inside (output_dir_of seqio cache_root t) p) \<longrightarrow>
          map_of (files st) p = map_of fs p)"

subsection \<open>Notions the statements about a run use\<close>

text \<open>
  The first \<open>k\<close> elements of a dataset repeated \<open>k\<close> times, and the number of examples
  that a shard gets of \<^verbatim>\<open>max_input_examples\<close>.
\<close>

definition cyclic_take :: "nat \<Rightarrow> 'a list \<Rightarrow> 'a list" where
  "cyclic_take k ds = take k (concat (replicate k ds))"

definition shard_quota :: "int \<Rightarrow> task \<Rightarrow> string \<Rightarrow> nat" where
  "shard_quota m task split = nat (m div int (length (source task split)))"

text \<open>
  The invariant of a run of the transforms of a task, started on the files \<open>fs\<close>: no
  transform is both complete and failed; when the file \<^verbatim>\<open>COMPLETED\<close> is written, all
  completion values are complete; the file of a complete transform holds what the
  transform computed; and as long as \<^verbatim>\<open>COMPLETED\<close> is not written, that file is as it
  was. And the state of the loop of \<^verbatim>\<open>run_pipeline\<close> in which every added task carries
  the arguments of the call.
\<close>

definition exec_invariant ::
  "seqio_env \<Rightarrow> runner \<Rightarrow> task_plan \<Rightarrow> filesystem \<Rightarrow> exec_state \<Rightarrow> bool" where
  "exec_invariant seqio r tp fs st \<longleftrightarrow>
     set (completed st) \<inter> set (failed st) = {} \<and>
     (write_completed_file \<in> set (completed st) \<longrightarrow>
        set (completion_values tp) \<subseteq> set (completed st)) \<and>
     (\<forall>n \<in> set (completed st).
        \<exists>p c. node_output seqio r tp n = Inr (p, c) \<and> map_of (disk st) p = Some c) \<and>
     (write_completed_file \<notin> set (completed st) \<longrightarrow>
        map_of (disk st) (plan_output_dir tp, COMPLETED) =
        map_of fs (plan_output_dir tp, COMPLETED))"

definition built_with :: "string \<Rightarrow> int option \<Rightarrow> run_state \<Rightarrow> bool" where
  "built_with contents mie st \<longleftrightarrow>
     (\<forall>tp \<in> set (plans st).
        plan_completed_file_contents tp = contents \<and> plan_max_input_examples tp = mie)"

subsection \<open>Tasks and files for the examples\<close>

text \<open>
  A task with two splits, \<open>train\<close> in two shards of three examples and one example, and
  \<open>validation\<close> in one shard with no example; a task whose cache was found in another
  directory than the one asked for; and a task with no split whose cache is in the
  directory asked for.
\<close>

definition example_task :: task where
  "example_task =
     \<lparr>name = ''c'', supports_caching = True, cache_dir = None,
      splits = [''train'', ''validation''], output_features = [''inputs'', ''targets''],
      source = (\<lambda>split.
        if split = ''train''
        then [[[(''inputs'', py_bytes ''x''), (''targets'', ndarray np_int32 [3, 4, 1])],
               [(''targets'', ndarray np_int32 [5, 1])],
               [(''targets'', ndarray np_int32 [6, 7, 8, 1])]],
              [[(''targets'', ndarray np_int32 [9, 1])]]]
        else [[]]),
      function_source = False, preprocess_precache = (\<lambda>ds. ds)\<rparr>"

definition task_a :: task where
  "task_a =
     \<lparr>name = ''a'', supports_caching = True, cache_dir = Some ''/elsewhere/a'',
      splits = [''train''], output_features = [''targets''],
      source = (\<lambda>split. [[[(''targets'', ndarray np_int32 [3, 4, 1])]]]),
      function_source = False, preprocess_precache = (\<lambda>ds. ds)\<rparr>"

definition task_b :: task where
  "task_b =
     \<lparr>name = ''b'', supports_caching = True, cache_dir = Some ''/out/b'',
      splits = [], output_features = [''targets''],
      source = (\<lambda>split. []),
      function_source = False, preprocess_precache = (\<lambda>ds. ds)\<rparr>"

definition example_seqio :: seqio_env where
  "example_seqio =
     \<lparr>TaskRegistry = [task_a, task_b, example_task], get_task_dir_from_name = (\<lambda>n. n),
      seqio_version = ''0.0.0''\<rparr>"

definition example_files :: filesystem where
  "example_files =
     [((''/elsewhere/a'', COMPLETED), PlainText []),
      ((''/out/a'', info_json ''train''), JsonLines [JDict []]),
      ((''/out/b'', tfrecord_files ''train''), TFRecords 1 []),
      ((''/out/b'', COMPLETED), PlainText [])]"

definition example_state :: run_state where
  "example_state = \<lparr>output_dirs = [], plans = [], files = example_files, log = []\<rparr>"

definition example_plan :: task_plan where
  "example_plan =
     \<lparr>plan_task = example_task, plan_output_dir = ''/out/c'', plan_max_input_examples = None,
      plan_completed_file_contents = ''done''\<rparr>"

text \<open>A runner whose writes all succeed, and one that cannot write a statistics file.\<close>

definition reliable :: runner where
  "reliable = \<lparr>io_ok = (\<lambda>p. True), emitted = (\<lambda>n. [''file''])\<rparr>"

definition no_stats :: runner where
  "no_stats = \<lparr>io_ok = (\<lambda>p. snd p \<noteq> stats_json ''train''), emitted = (\<lambda>n. [''file''])\<rparr>"

section \<open>Lemmas\<close>

subsection \<open>Replacing \<open>tokens\<close> by \<open>max_tokens\<close>\<close>

lemma str_replace_Nil: "old \<noteq> [] \<Longrightarrow> str_replace old new [] = []"
  by (simp add: str_replace.simps)

lemma str_replace_prefix:
  "old \<noteq> [] \<Longrightarrow> prefix old s \<Longrightarrow>
   str_replace old new s = new @ str_replace old new (drop (length old) s)"
  by (subst str_replace.simps) (auto simp: prefix_def)

lemma str_replace_no_prefix:
  "old \<noteq> [] \<Longrightarrow> \<not> prefix old (c # s) \<Longrightarrow>
   str_replace old new (c # s) = c # str_replace old new s"
  by (subst str_replace.simps) simp

lemma tokens_prefix_append:
  "prefix ''tokens'' (f @ ''_tokens'') \<longleftrightarrow> prefix ''tokens'' f"
proof
  assume "prefix ''tokens'' (f @ ''_tokens'')"
  then consider "prefix ''tokens'' f"
    | us where "''tokens'' = f @ us" "prefix us ''_tokens''"
    by (auto simp: prefix_append)
  then show "prefix ''tokens'' f"
  proof cases
    case 1 then show ?thesis .
  next
    case 2
    show ?thesis
    proof (cases us)
      case Nil
      with 2 show ?thesis by simp
    next
      case (Cons u us')
      with 2 have "u = CHR ''_''" by (auto simp: prefix_def)
      with 2 Cons have "CHR ''_'' \<in> set ''tokens''"
        by (metis in_set_conv_decomp)
      then show ?thesis by simp
    qed
  qed
next
  assume "prefix ''tokens'' f"
  then show "prefix ''tokens'' (f @ ''_tokens'')" by (rule prefix_prefix)
qed

lemma str_replace_tokens_suffix:
  "str_replace ''tokens'' ''max_tokens'' (f @ ''_tokens'') =
   str_replace ''tokens'' ''max_tokens'' f @ ''_max_tokens''"
proof (induction f rule: length_induct)
  case (1 f)
  show ?case
  proof (cases f)
    case Nil
    have "str_replace ''tokens'' ''max_tokens'' ''_tokens'' = ''_max_tokens''"
      by code_simp
    with Nil show ?thesis by (simp add: str_replace_Nil)
  next
    case (Cons c f')
    show ?thesis
    proof (cases "prefix ''tokens'' f")
      case True
      then obtain r where r: "f = ''tokens'' @ r" by (auto simp: prefix_def)
      have p2: "prefix ''tokens'' (f @ ''_tokens'')" using True by (rule prefix_prefix)
      have "length r < length f" using r by simp
      with 1 have ih: "str_replace ''tokens'' ''max_tokens'' (r @ ''_tokens'') =
         str_replace ''tokens'' ''max_tokens'' r @ ''_max_tokens''" by blast
      have a: "str_replace ''tokens'' ''max_tokens'' (f @ ''_tokens'') =
         ''max_tokens'' @ str_replace ''tokens'' ''max_tokens'' (r @ ''_tokens'')"
        using str_replace_prefix [OF _ p2, of "''max_tokens''"] r by simp
      have b: "str_replace ''tokens'' ''max_tokens'' f =
         ''max_tokens'' @ str_replace ''tokens'' ''max_tokens'' r"
        using str_replace_prefix [OF _ True, of "''max_tokens''"] r by simp
      show ?thesis using a b ih by simp
    next
      case False
      then have np: "\<not> prefix ''tokens'' (c # (f' @ ''_tokens''))"
        using tokens_prefix_append [of f] Cons by simp
      have "length f' < length f" using Cons by simp
      with 1 have ih: "str_replace ''tokens'' ''max_tokens'' (f' @ ''_tokens'') =
         str_replace ''tokens'' ''max_tokens'' f' @ ''_max_tokens''" by blast
      have a: "str_replace ''tokens'' ''max_tokens'' (c # (f' @ ''_tokens'')) =
         c # str_replace ''tokens'' ''max_tokens'' (f' @ ''_tokens'')"
        using str_replace_no_prefix [OF _ np] by simp
      have b: "str_replace ''tokens'' ''max_tokens'' (c # f') =
         c # str_replace ''tokens'' ''max_tokens'' f'"
        using str_replace_no_prefix [of "''tokens''" c f'] False Cons by simp
      show ?thesis using a b ih Cons by simp
    qed
  qed
qed

lemma str_replace_absent:
  "\<not> sublist ''tokens'' f \<Longrightarrow> str_replace ''tokens'' ''max_tokens'' f = f"
proof (induction f)
  case Nil
  then show ?case by (simp add: str_replace_Nil)
next
  case (Cons c f)
  from Cons.prems have np: "\<not> prefix ''tokens'' (c # f)"
    by (auto simp: sublist_Cons_right)
  from Cons.prems have "\<not> sublist ''tokens'' f"
    by (auto simp: sublist_Cons_right)
  with Cons.IH have "str_replace ''tokens'' ''max_tokens'' f = f" by simp
  with str_replace_no_prefix [OF _ np, of "''max_tokens''"] show ?case by simp
qed

lemma str_replace_length_ge:
  "length s \<le> length (str_replace ''tokens'' ''max_tokens'' s)"
proof (induction s rule: length_induct)
  case (1 s)
  show ?case
  proof (cases s)
    case Nil
    then show ?thesis by simp
  next
    case (Cons c s')
    show ?thesis
    proof (cases "prefix ''tokens'' s")
      case True
      then obtain r where r: "s = ''tokens'' @ r" by (auto simp: prefix_def)
      then have "length r < length s" by simp
      with 1 have "length r \<le> length (str_replace ''tokens'' ''max_tokens'' r)" by blast
      moreover have "str_replace ''tokens'' ''max_tokens'' s =
         ''max_tokens'' @ str_replace ''tokens'' ''max_tokens'' r"
        using str_replace_prefix [OF _ True, of "''max_tokens''"] r by simp
      ultimately show ?thesis using r by simp
    next
      case False
      have "length s' < length s" using Cons by simp
      with 1 have "length s' \<le> length (str_replace ''tokens'' ''max_tokens'' s')" by blast
      moreover have "str_replace ''tokens'' ''max_tokens'' (c # s') =
         c # str_replace ''tokens'' ''max_tokens'' s'"
        using str_replace_no_prefix [of "''tokens''" c s'] False Cons by simp
      ultimately show ?thesis using Cons by simp
    qed
  qed
qed

lemma str_replace_present:
  "sublist ''tokens'' f \<Longrightarrow> length f < length (str_replace ''tokens'' ''max_tokens'' f)"
proof (induction f)
  case Nil
  then show ?case by simp
next
  case (Cons c f)
  show ?case
  proof (cases "prefix ''tokens'' (c # f)")
    case True
    then obtain r where r: "c # f = ''tokens'' @ r" by (auto simp: prefix_def)
    have "str_replace ''tokens'' ''max_tokens'' (c # f) =
         ''max_tokens'' @ str_replace ''tokens'' ''max_tokens'' r"
      using str_replace_prefix [OF _ True, of "''max_tokens''"] r by simp
    moreover have "length r \<le> length (str_replace ''tokens'' ''max_tokens'' r)"
      by (rule str_replace_length_ge)
    moreover have "length (c # f) = 6 + length r"
      using arg_cong [OF r, of length] by simp
    ultimately show ?thesis by simp
  next
    case False
    with Cons.prems have "sublist ''tokens'' f" by (auto simp: sublist_Cons_right)
    with Cons.IH have "length f < length (str_replace ''tokens'' ''max_tokens'' f)" by simp
    with str_replace_no_prefix [OF _ False, of "''max_tokens''"] show ?thesis by simp
  qed
qed


subsection \<open>Merging dicts\<close>

lemma update_fresh: "k \<notin> fst ` set m \<Longrightarrow> AList.update k v m = m @ [(k, v)]"
  by (induction m) auto

lemma dict_update_disjoint:
  "distinct (map fst d) \<Longrightarrow> set (map fst m) \<inter> set (map fst d) = {} \<Longrightarrow> dict_update m d = m @ d"
proof (induction d arbitrary: m)
  case Nil
  then show ?case by (simp add: dict_update_def)
next
  case (Cons kv d)
  have fresh: "fst kv \<notin> fst ` set m" using Cons.prems(2) by auto
  have step: "dict_update m (kv # d) = dict_update (m @ [kv]) d"
    using update_fresh [OF fresh, of "snd kv"] by (simp add: dict_update_def)
  have "distinct (map fst d)" using Cons.prems(1) by simp
  moreover have "set (map fst (m @ [kv])) \<inter> set (map fst d) = {}"
    using Cons.prems by auto
  ultimately have "dict_update (m @ [kv]) d = (m @ [kv]) @ d" by (rule Cons.IH)
  with step show ?case by simp
qed

lemma merge_loop_distinct:
  "distinct (map fst m @ concat (map (map fst) ds)) \<Longrightarrow> merge_loop m ds = Inr (m @ concat ds)"
proof (induction ds arbitrary: m)
  case Nil
  then show ?case by simp
next
  case (Cons d ds)
  have disj: "set (map fst m) \<inter> set (map fst d) = {}" using Cons.prems by auto
  have dd: "distinct (map fst d)" using Cons.prems by simp
  have upd: "dict_update m d = m @ d" using dd disj by (rule dict_update_disjoint)
  have "distinct (map fst (m @ d) @ concat (map (map fst) ds))" using Cons.prems by simp
  then have "merge_loop (m @ d) ds = Inr ((m @ d) @ concat ds)" by (rule Cons.IH)
  with disj upd show ?case by simp
qed

lemma merge_loop_overlap:
  "distinct (map fst m) \<Longrightarrow> \<forall>d\<in>set ds. distinct (map fst d) \<Longrightarrow>
   \<not> distinct (map fst m @ concat (map (map fst) ds)) \<Longrightarrow> merge_loop m ds = Inl AssertionError"
proof (induction ds arbitrary: m)
  case Nil
  then show ?case by simp
next
  case (Cons d ds)
  show ?case
  proof (cases "set (map fst m) \<inter> set (map fst d) = {}")
    case False
    then show ?thesis by simp
  next
    case True
    have dd: "distinct (map fst d)" using Cons.prems(2) by simp
    have upd: "dict_update m d = m @ d" using dd True by (rule dict_update_disjoint)
    have a: "distinct (map fst (m @ d))" using Cons.prems(1) dd True by auto
    have b: "\<forall>d\<in>set ds. distinct (map fst d)" using Cons.prems(2) by simp
    have c: "\<not> distinct (map fst (m @ d) @ concat (map (map fst) ds))"
      using Cons.prems(3) by simp
    have "merge_loop (m @ d) ds = Inl AssertionError" using a b c by (rule Cons.IH)
    with True upd show ?thesis by simp
  qed
qed

lemma merge_dicts_distinct:
  "distinct (concat (map (map fst) ds)) \<Longrightarrow> merge_dicts ds = Inr (concat ds)"
  using merge_loop_distinct [of "[]" ds] by (simp add: merge_dicts_def)

lemma merge_dicts_overlap:
  "\<forall>d\<in>set ds. distinct (map fst d) \<Longrightarrow> \<not> distinct (concat (map (map fst) ds)) \<Longrightarrow>
   merge_dicts ds = Inl AssertionError"
  using merge_loop_overlap [of "[]" ds] by (simp add: merge_dicts_def)

subsection \<open>The combiners and \<^verbatim>\<open>GetStats\<close>\<close>

lemma collect_map_Inr:
  "\<forall>x\<in>set xs. g x = Inr (f x) \<Longrightarrow> collect (map g xs) = Inr (map f xs)"
  by (induction xs) auto

text \<open>
  A runner may also merge the dicts in groups and then merge the results of the groups:
  that raises when merging them all at once raises, and gives the same dict otherwise.
\<close>

lemma collect_Inl: "collect rs = Inl e \<Longrightarrow> Inl e \<in> set rs"
  by (induction rs rule: collect.induct) (auto split: sum.splits)

lemma collect_Inr: "collect rs = Inr xs \<Longrightarrow> rs = map Inr xs"
  by (induction rs arbitrary: xs rule: collect.induct) (auto split: sum.splits)

lemma merge_dicts_error:
  assumes "\<forall>d\<in>set ds. distinct (map fst d)" and "merge_dicts ds = Inl e"
  shows "e = AssertionError \<and> \<not> distinct (concat (map (map fst) ds))"
  using assms merge_dicts_distinct [of ds] merge_dicts_overlap [of ds] by (cases "distinct (concat (map (map fst) ds))") auto

lemma concat_map_concat: "concat (map concat xss) = concat (concat xss)"
  by (induction xss) simp_all

lemma merge_dicts_grouped:
  assumes "\<forall>g\<in>set groups. \<forall>d\<in>set g. distinct (map fst d)"
  shows "(case collect (map merge_dicts groups) of Inl e \<Rightarrow> Inl e | Inr ds \<Rightarrow> merge_dicts ds) =
         merge_dicts (concat groups)"
proof (cases "collect (map merge_dicts groups)")
  case (Inl e)
  then have "Inl e \<in> set (map merge_dicts groups)" by (rule collect_Inl)
  then obtain g where g: "g \<in> set groups" and f: "merge_dicts g = Inl e" by auto
  from assms g have dg: "\<forall>d\<in>set g. distinct (map fst d)" by simp
  from merge_dicts_error [OF dg f] have e: "e = AssertionError"
    and nd: "\<not> distinct (concat (map (map fst) g))" by simp_all
  from g obtain as bs where "groups = as @ g # bs" by (auto simp: in_set_conv_decomp)
  with nd have "\<not> distinct (concat (map (map fst) (concat groups)))" by auto
  moreover have "\<forall>d\<in>set (concat groups). distinct (map fst d)" using assms by auto
  ultimately have "merge_dicts (concat groups) = Inl AssertionError"
    by (intro merge_dicts_overlap)
  with Inl e show ?thesis by simp
next
  case (Inr ds)
  then have m: "map merge_dicts groups = map Inr ds" by (rule collect_Inr)
  have each: "merge_dicts g = Inr (concat g) \<and> distinct (concat (map (map fst) g))"
    if "g \<in> set groups" for g
  proof -
    from m that obtain d where r: "merge_dicts g = Inr d"
      by (metis (no_types, lifting) imageE image_eqI list.set_map)
    from assms that have dg: "\<forall>d\<in>set g. distinct (map fst d)" by simp
    have "distinct (concat (map (map fst) g))"
      using merge_dicts_overlap [OF dg] r by auto
    then show ?thesis using merge_dicts_distinct by blast
  qed
  then have "collect (map merge_dicts groups) = Inr (map concat groups)"
    by (intro collect_map_Inr) simp
  with Inr have ds: "ds = map concat groups" by simp
  have keys: "concat (map (map fst) ds) = concat (map (map fst) (concat groups))"
    unfolding ds by (induction groups) (simp_all add: map_concat)
  have dd: "\<forall>d\<in>set ds. distinct (map fst d)"
    unfolding ds using each by (auto simp: map_concat)
  have all: "\<forall>d\<in>set (concat groups). distinct (map fst d)" using assms by auto
  have "merge_dicts ds = merge_dicts (concat groups)"
  proof (cases "distinct (concat (map (map fst) ds))")
    case True
    then show ?thesis
      using merge_dicts_distinct [of ds] merge_dicts_distinct [of "concat groups"] keys
      by (simp add: ds concat_map_concat)
  next
    case False
    then show ?thesis
      using merge_dicts_overlap [OF dd] merge_dicts_overlap [OF all] keys by simp
  qed
  with Inr show ?thesis by simp
qed

lemma CombinePerKey_sum:
  "CombinePerKey py_sum kvs =
   Inr (map (\<lambda>k. (k, sum_list (values_of k kvs))) (remdups (map fst kvs)))"
  unfolding CombinePerKey_def
  by (rule collect_map_Inr) (simp add: py_sum_def)

lemma py_max_nonempty:
  assumes "vs \<noteq> []"
  shows "py_max vs = Inr (Max (set vs))"
proof (cases vs)
  case Nil
  with assms show ?thesis by simp
next
  case (Cons a list)
  then show ?thesis using Max.set_eq_fold [of a list] by simp
qed

lemma values_of_nonempty: "k \<in> set (map fst kvs) \<Longrightarrow> values_of k kvs \<noteq> []"
  by (induction kvs) (auto simp: values_of_def)

lemma CombinePerKey_max:
  "CombinePerKey py_max kvs =
   Inr (map (\<lambda>k. (k, Max (set (values_of k kvs)))) (remdups (map fst kvs)))"
  unfolding CombinePerKey_def
proof (rule collect_map_Inr, rule ballI)
  fix k assume "k \<in> set (remdups (map fst kvs))"
  then have "values_of k kvs \<noteq> []" using values_of_nonempty [of k kvs] by simp
  then show "(case py_max (values_of k kvs) of Inl e \<Rightarrow> Inl e | Inr v \<Rightarrow> Inr (k, v)) =
     Inr (k, Max (set (values_of k kvs)))"
    by (simp add: py_max_nonempty)
qed

lemma concat_to_dict: "concat (map to_dict xs) = xs"
  by (induction xs) (auto simp: to_dict_def)

lemma keys_to_dict: "concat (map (map fst) (map to_dict xs)) = map fst xs"
  by (induction xs) (auto simp: to_dict_def)

lemma GetStats_dicts:
  "GetStats feats pcoll =
   CombineGlobally merge_dicts
     ([[(''examples'', int (length pcoll))]] @
      map to_dict (map (\<lambda>k. (k, sum_list (values_of k (token_counts feats pcoll))))
                       (sum_keys feats pcoll)) @
      map to_dict (map (\<lambda>k. (str_replace ''tokens'' ''max_tokens'' k,
                              Max (set (values_of k (token_counts feats pcoll)))))
                       (sum_keys feats pcoll)))"
  by (simp add: GetStats_def CombinePerKey_sum CombinePerKey_max Count_Globally_def Flatten_def
      to_dict_def rename_max_stat_def sum_keys_def comp_def Let_def)

lemma GetStats_keys:
  "concat (map (map fst)
     ([[(''examples'', int (length pcoll))]] @
      map to_dict (map (\<lambda>k. (k, sum_list (values_of k (token_counts feats pcoll))))
                       (sum_keys feats pcoll)) @
      map to_dict (map (\<lambda>k. (str_replace ''tokens'' ''max_tokens'' k,
                              Max (set (values_of k (token_counts feats pcoll)))))
                       (sum_keys feats pcoll)))) = stat_keys feats pcoll"
  by (simp add: to_dict_def stat_keys_def comp_def)

lemma GetStats_distinct:
  assumes "distinct (stat_keys feats pcoll)"
  shows "GetStats feats pcoll = Inr [merged_stats feats pcoll]"
proof -
  let ?ds = "[[(''examples'', int (length pcoll))]] @
      map to_dict (map (\<lambda>k. (k, sum_list (values_of k (token_counts feats pcoll))))
                       (sum_keys feats pcoll)) @
      map to_dict (map (\<lambda>k. (str_replace ''tokens'' ''max_tokens'' k,
                              Max (set (values_of k (token_counts feats pcoll)))))
                       (sum_keys feats pcoll))"
  have "distinct (concat (map (map fst) ?ds))" using assms by (simp only: GetStats_keys)
  then have "merge_dicts ?ds = Inr (concat ?ds)" by (rule merge_dicts_distinct)
  moreover have "concat ?ds = merged_stats feats pcoll"
    by (simp add: merged_stats_def to_dict_def comp_def Let_def)
  ultimately show ?thesis by (simp only: GetStats_dicts CombineGlobally_def sum.case)
qed

lemma GetStats_overlap:
  assumes "\<not> distinct (stat_keys feats pcoll)"
  shows "GetStats feats pcoll = Inl AssertionError"
proof -
  let ?ds = "[[(''examples'', int (length pcoll))]] @
      map to_dict (map (\<lambda>k. (k, sum_list (values_of k (token_counts feats pcoll))))
                       (sum_keys feats pcoll)) @
      map to_dict (map (\<lambda>k. (str_replace ''tokens'' ''max_tokens'' k,
                              Max (set (values_of k (token_counts feats pcoll)))))
                       (sum_keys feats pcoll))"
  have "\<not> distinct (concat (map (map fst) ?ds))" unfolding GetStats_keys by (rule assms)
  moreover have "\<forall>d\<in>set ?ds. distinct (map fst d)" by (auto simp: to_dict_def)
  ultimately have "merge_dicts ?ds = Inl AssertionError" by (rule merge_dicts_overlap [rotated])
  then show ?thesis by (simp only: GetStats_dicts CombineGlobally_def sum.case)
qed

subsection \<open>Compiling the anchored patterns\<close>

lemma lex_append:
  "lex p = Inr ts \<Longrightarrow> lex (p @ q) = (case lex q of Inl e \<Rightarrow> Inl e | Inr ts' \<Rightarrow> Inr (ts @ ts'))"
proof (induction p arbitrary: ts rule: lex.induct)
  case 1
  then show ?case by (simp split: sum.splits)
next
  case (2 c s)
  show ?case
  proof (cases "c = CHR 0x5C")
    case True
    with "2.prems" obtain d s' where s: "s = d # s'" by (cases s) auto
    from "2.prems" True s obtain t ts' where
      t: "lex_escape d = Inr t" and ts': "lex s' = Inr ts'" and ts: "ts = t # ts'"
      by (auto split: sum.splits)
    from "2.IH"(1) [OF True s t ts']
    have "lex (s' @ q) = (case lex q of Inl e \<Rightarrow> Inl e | Inr ts'' \<Rightarrow> Inr (ts' @ ts''))" .
    with True s t ts show ?thesis by (simp split: sum.splits)
  next
    case False
    from "2.prems" False obtain t ts' where
      t: "lex_char c = Inr t" and ts': "lex s = Inr ts'" and ts: "ts = t # ts'"
      by (auto split: sum.splits)
    from "2.IH"(2) [OF False t ts']
    have "lex (s @ q) = (case lex q of Inl e \<Rightarrow> Inl e | Inr ts'' \<Rightarrow> Inr (ts' @ ts''))" .
    with False t ts show ?thesis by (simp split: sum.splits)
  qed
qed

lemma steps_append:
  "steps (ts1 @ ts2) st = (case steps ts1 st of Inl e \<Rightarrow> Inl e | Inr st' \<Rightarrow> steps ts2 st')"
  by (induction ts1 arbitrary: st) (auto split: sum.splits)

lemma ext_single [simp]: "ext A below [f] = f\<lparr>alts := A @ alts f\<rparr> # below"
  by (simp add: ext_def)

lemma ext_Cons [simp]: "fs \<noteq> [] \<Longrightarrow> ext A below (f # fs) = f # ext A below fs"
  by (simp add: ext_def)

lemma ext_nonempty [simp]: "ext A below st \<noteq> []"
  by (simp add: ext_def)

lemma quantify_ext:
  assumes "quantify q b (f # fs) = Inr st'"
  shows "quantify q b (ext A below (f # fs)) = Inr (ext A below st') \<and> st' \<noteq> []"
proof (cases fs)
  case Nil
  with assms show ?thesis
    by (auto simp: quantify_def split: if_splits sum.splits)
next
  case (Cons g gs)
  with assms show ?thesis
    by (auto simp: quantify_def split: if_splits sum.splits)
qed

lemma step_ext:
  assumes "step tok st = Inr st'"
  shows "step tok (ext A below st) = Inr (ext A below st') \<and> st' \<noteq> []"
proof (cases st)
  case Nil
  with assms show ?thesis by simp
next
  case (Cons f fs)
  show ?thesis
  proof (cases fs)
    case Nil
    with Cons assms quantify_ext [of _ _ f "[]" st' A below] show ?thesis
      by (cases tok) (auto simp: push_item_def empty_frame_def)
  next
    case (Cons g gs)
    note fs = this
    show ?thesis
    proof (cases gs)
      case Nil
      with fs \<open>st = f # fs\<close> assms quantify_ext [of _ _ f fs st' A below] show ?thesis
        by (cases tok) (auto simp: push_item_def empty_frame_def)
    next
      case (Cons h hs)
      with fs \<open>st = f # fs\<close> assms quantify_ext [of _ _ f fs st' A below] show ?thesis
        by (cases tok) (auto simp: push_item_def empty_frame_def)
    qed
  qed
qed

lemma steps_ext:
  "st \<noteq> [] \<Longrightarrow> steps toks st = Inr st' \<Longrightarrow>
   steps toks (ext A below st) = Inr (ext A below st') \<and> st' \<noteq> []"
proof (induction toks arbitrary: st)
  case Nil
  then show ?case by simp
next
  case (Cons tok toks)
  from Cons.prems obtain st1 where s1: "step tok st = Inr st1" and s2: "steps toks st1 = Inr st'"
    by (auto split: sum.splits)
  from step_ext [OF s1, of A below]
  have e1: "step tok (ext A below st) = Inr (ext A below st1)" and ne: "st1 \<noteq> []" by simp_all
  from Cons.IH [OF ne s2] e1 show ?case by simp
qed


lemma valid_patternD:
  assumes "valid_pattern p"
  obtains toks f where "lex p = Inr toks" and "steps toks [empty_frame] = Inr [f]"
    and "anchored_alts p = alts f @ [mk_seq (cur f @ [EndZ])]"
proof -
  from assms obtain toks where l: "lex p = Inr toks"
    by (auto simp: valid_pattern_def re_compile_def split: sum.splits)
  with assms obtain f where st: "steps toks [empty_frame] = Inr [f]"
    by (auto simp: valid_pattern_def re_compile_def parse_def split: sum.splits list.splits)
  have "anchored_alts p = alts f @ [mk_seq (cur f @ [EndZ])]"
    by (simp add: anchored_alts_def l st)
  with l st show ?thesis by (rule that)
qed

lemma lex_EndZ: "lex ([CHR 0x5C, CHR ''Z''] @ q) =
  (case lex q of Inl e \<Rightarrow> Inl e | Inr ts \<Rightarrow> Inr (TEndZ # ts))"
  by (simp add: lex_escape_def)

lemma lex_Bar: "lex (CHR ''|'' # q) =
  (case lex q of Inl e \<Rightarrow> Inl e | Inr ts \<Rightarrow> Inr (TBar # ts))"
  by (simp add: lex_char_def)

lemma run_pattern:
  assumes "valid_pattern p"
  shows "\<exists>toks.
    (\<forall>q. lex (p @ q) = (case lex q of Inl e \<Rightarrow> Inl e | Inr ts \<Rightarrow> Inr (toks @ ts))) \<and>
    (\<forall>A below. \<exists>f. steps toks (\<lparr>alts = A, cur = []\<rparr> # below) = Inr (f # below) \<and>
           alts f @ [mk_seq (cur f @ [EndZ])] = A @ anchored_alts p)"
proof -
  from assms obtain toks f where l: "lex p = Inr toks"
    and st: "steps toks [empty_frame] = Inr [f]"
    and aa: "anchored_alts p = alts f @ [mk_seq (cur f @ [EndZ])]"
    by (rule valid_patternD)
  have 1: "lex (p @ q) = (case lex q of Inl e \<Rightarrow> Inl e | Inr ts \<Rightarrow> Inr (toks @ ts))" for q
    using l by (rule lex_append)
  have 2: "\<exists>g. steps toks (\<lparr>alts = A, cur = []\<rparr> # below) = Inr (g # below) \<and>
           alts g @ [mk_seq (cur g @ [EndZ])] = A @ anchored_alts p" for A below
  proof -
    have "steps toks (ext A below [empty_frame]) = Inr (ext A below [f])"
      using steps_ext [OF _ st, of A below] by simp
    then have "steps toks (\<lparr>alts = A, cur = []\<rparr> # below) = Inr (f\<lparr>alts := A @ alts f\<rparr> # below)"
      by (simp add: empty_frame_def)
    then show ?thesis using aa by auto
  qed
  from 1 2 show ?thesis by blast
qed

lemma run_joined:
  assumes "ps \<noteq> []" and "\<forall>p\<in>set ps. valid_pattern p"
  shows "\<exists>toks.
    (\<forall>q. lex (join [CHR 0x5C, CHR ''Z'', CHR ''|''] ps @ [CHR 0x5C, CHR ''Z''] @ q) =
          (case lex q of Inl e \<Rightarrow> Inl e | Inr ts \<Rightarrow> Inr (toks @ ts))) \<and>
    (\<forall>A below. \<exists>f. steps toks (\<lparr>alts = A, cur = []\<rparr> # below) = Inr (f # below) \<and>
          close_frame f = mk_alt (A @ concat (map anchored_alts ps)))"
  using assms
proof (induction ps rule: list_nonempty_induct)
  case (single p)
  then have "valid_pattern p" by simp
  from run_pattern [OF this] obtain toks where
    l: "\<And>q. lex (p @ q) = (case lex q of Inl e \<Rightarrow> Inl e | Inr ts \<Rightarrow> Inr (toks @ ts))"
    and r: "\<And>A below. \<exists>f. steps toks (\<lparr>alts = A, cur = []\<rparr> # below) = Inr (f # below) \<and>
           alts f @ [mk_seq (cur f @ [EndZ])] = A @ anchored_alts p"
    by blast
  have a: "lex (join [CHR 0x5C, CHR ''Z'', CHR ''|''] [p] @ [CHR 0x5C, CHR ''Z''] @ q) =
          (case lex q of Inl e \<Rightarrow> Inl e | Inr ts \<Rightarrow> Inr ((toks @ [TEndZ]) @ ts))" for q
    using l [of "[CHR 0x5C, CHR ''Z''] @ q"] lex_EndZ [of q] by (simp split: sum.splits)
  have b: "\<exists>f. steps (toks @ [TEndZ]) (\<lparr>alts = A, cur = []\<rparr> # below) = Inr (f # below) \<and>
          close_frame f = mk_alt (A @ concat (map anchored_alts [p]))" for A below
  proof -
    from r [of A below] obtain f where
      f: "steps toks (\<lparr>alts = A, cur = []\<rparr> # below) = Inr (f # below)"
      and e: "alts f @ [mk_seq (cur f @ [EndZ])] = A @ anchored_alts p" by blast
    have "steps (toks @ [TEndZ]) (\<lparr>alts = A, cur = []\<rparr> # below) = Inr (push_item EndZ f # below)"
      by (simp add: steps_append f)
    moreover have "close_frame (push_item EndZ f) = mk_alt (A @ concat (map anchored_alts [p]))"
      using e by (simp add: close_frame_def push_item_def)
    ultimately show ?thesis by blast
  qed
  from a b show ?case by blast
next
  case (cons p ps)
  then have vs: "\<forall>p\<in>set ps. valid_pattern p" and vp: "valid_pattern p" by simp_all
  from run_pattern [OF vp] obtain toks where
    l: "\<And>q. lex (p @ q) = (case lex q of Inl e \<Rightarrow> Inl e | Inr ts \<Rightarrow> Inr (toks @ ts))"
    and r: "\<And>A below. \<exists>f. steps toks (\<lparr>alts = A, cur = []\<rparr> # below) = Inr (f # below) \<and>
           alts f @ [mk_seq (cur f @ [EndZ])] = A @ anchored_alts p"
    by blast
  from cons.IH [OF vs] obtain toks' where
    l': "\<And>q. lex (join [CHR 0x5C, CHR ''Z'', CHR ''|''] ps @ [CHR 0x5C, CHR ''Z''] @ q) =
          (case lex q of Inl e \<Rightarrow> Inl e | Inr ts \<Rightarrow> Inr (toks' @ ts))"
    and r': "\<And>A below. \<exists>f. steps toks' (\<lparr>alts = A, cur = []\<rparr> # below) = Inr (f # below) \<and>
          close_frame f = mk_alt (A @ concat (map anchored_alts ps))"
    by blast
  from \<open>ps \<noteq> []\<close> obtain p' ps' where ps: "ps = p' # ps'" by (cases ps) auto
  have j: "join [CHR 0x5C, CHR ''Z'', CHR ''|''] (p # ps) =
           p @ [CHR 0x5C, CHR ''Z''] @ CHR ''|'' # join [CHR 0x5C, CHR ''Z'', CHR ''|''] ps"
    by (simp add: ps)
  have a: "lex (join [CHR 0x5C, CHR ''Z'', CHR ''|''] (p # ps) @ [CHR 0x5C, CHR ''Z''] @ q) =
          (case lex q of Inl e \<Rightarrow> Inl e | Inr ts \<Rightarrow> Inr ((toks @ [TEndZ, TBar] @ toks') @ ts))" for q
  proof -
    have "lex (join [CHR 0x5C, CHR ''Z'', CHR ''|''] (p # ps) @ [CHR 0x5C, CHR ''Z''] @ q) =
      lex (p @ [CHR 0x5C, CHR ''Z''] @ CHR ''|'' #
           (join [CHR 0x5C, CHR ''Z'', CHR ''|''] ps @ [CHR 0x5C, CHR ''Z''] @ q))"
      by (simp only: j append_assoc append_Cons)
    also have "\<dots> = (case lex q of Inl e \<Rightarrow> Inl e | Inr ts \<Rightarrow> Inr ((toks @ [TEndZ, TBar] @ toks') @ ts))"
      by (simp only: l lex_EndZ lex_Bar l') (simp split: sum.splits)
    finally show ?thesis .
  qed
  have b: "\<exists>f. steps (toks @ [TEndZ, TBar] @ toks') (\<lparr>alts = A, cur = []\<rparr> # below) = Inr (f # below) \<and>
          close_frame f = mk_alt (A @ concat (map anchored_alts (p # ps)))" for A below
  proof -
    from r [of A below] obtain f where
      f: "steps toks (\<lparr>alts = A, cur = []\<rparr> # below) = Inr (f # below)"
      and e: "alts f @ [mk_seq (cur f @ [EndZ])] = A @ anchored_alts p" by blast
    from r' [of "A @ anchored_alts p" below] obtain g where
      g: "steps toks' (\<lparr>alts = A @ anchored_alts p, cur = []\<rparr> # below) = Inr (g # below)"
      and c: "close_frame g = mk_alt ((A @ anchored_alts p) @ concat (map anchored_alts ps))"
      by blast
    have "steps (toks @ [TEndZ, TBar] @ toks') (\<lparr>alts = A, cur = []\<rparr> # below) = Inr (g # below)"
      using e g by (simp add: steps_append f push_item_def)
    with c show ?thesis by auto
  qed
  from a b show ?case by blast
qed

lemma rems_mk_alt:
  "L \<noteq> [] \<Longrightarrow> set (rems (mk_alt L) s) = (\<Union>r\<in>set L. set (rems r s))"
  by (induction L rule: mk_alt.induct) auto

lemma anchored_alts_nonempty: "valid_pattern p \<Longrightarrow> anchored_alts p \<noteq> []"
  by (erule valid_patternD) simp

lemma compile_anchored:
  assumes "ps \<noteq> []" and "\<forall>p\<in>set ps. valid_pattern p"
  shows "re_compile (anchored ps) = Inr (Seq (Group (mk_alt (concat (map anchored_alts ps)))) Eps)"
proof -
  from run_joined [OF assms] obtain toks where
    l: "\<And>q. lex (join [CHR 0x5C, CHR ''Z'', CHR ''|''] ps @ [CHR 0x5C, CHR ''Z''] @ q) =
          (case lex q of Inl e \<Rightarrow> Inl e | Inr ts \<Rightarrow> Inr (toks @ ts))"
    and r: "\<And>A below. \<exists>f. steps toks (\<lparr>alts = A, cur = []\<rparr> # below) = Inr (f # below) \<and>
          close_frame f = mk_alt (A @ concat (map anchored_alts ps))"
    by blast
  have "lex (anchored ps) = Inr (TLParen # toks @ [TRParen])"
    using l [of "'')''"] by (simp add: anchored_def lex_char_def)
  moreover from r [of "[]" "[empty_frame]"] obtain f where
    f: "steps toks [empty_frame, empty_frame] = Inr [f, empty_frame]"
    and c: "close_frame f = mk_alt (concat (map anchored_alts ps))"
    by (auto simp: empty_frame_def)
  have "steps (TLParen # toks @ [TRParen]) [empty_frame] =
        Inr [push_item (Group (close_frame f)) empty_frame]"
    by (simp add: steps_append f)
  moreover have "close_frame (push_item (Group (close_frame f)) empty_frame) =
        Seq (Group (close_frame f)) Eps"
    by (simp add: close_frame_def push_item_def empty_frame_def)
  ultimately show ?thesis
    by (simp add: re_compile_def parse_def c)
qed

lemma compile_single:
  assumes "valid_pattern p"
  shows "re_compile (p @ [CHR 0x5C, CHR ''Z'']) = Inr (mk_alt (anchored_alts p))"
proof -
  from run_pattern [OF assms] obtain toks where
    l: "\<And>q. lex (p @ q) = (case lex q of Inl e \<Rightarrow> Inl e | Inr ts \<Rightarrow> Inr (toks @ ts))"
    and r: "\<And>A below. \<exists>f. steps toks (\<lparr>alts = A, cur = []\<rparr> # below) = Inr (f # below) \<and>
           alts f @ [mk_seq (cur f @ [EndZ])] = A @ anchored_alts p"
    by blast
  have "lex (p @ [CHR 0x5C, CHR ''Z'']) = Inr (toks @ [TEndZ])"
    using l [of "[CHR 0x5C, CHR ''Z'']"] by (simp add: lex_escape_def)
  moreover from r [of "[]" "[]"] obtain f where
    f: "steps toks [empty_frame] = Inr [f]"
    and e: "alts f @ [mk_seq (cur f @ [EndZ])] = anchored_alts p"
    by (auto simp: empty_frame_def)
  have "steps (toks @ [TEndZ]) [empty_frame] = Inr [push_item EndZ f]"
    by (simp add: steps_append f)
  ultimately show ?thesis
    using e by (simp add: re_compile_def parse_def close_frame_def push_item_def)
qed

lemma match_anchored:
  assumes "ps \<noteq> []" and "\<forall>p\<in>set ps. valid_pattern p"
  shows "\<exists>r. re_compile (anchored ps) = Inr r \<and>
           (\<forall>t. re_match r t \<longleftrightarrow> (\<exists>p\<in>set ps. re_match (mk_alt (anchored_alts p)) t))"
proof -
  let ?r = "Seq (Group (mk_alt (concat (map anchored_alts ps)))) Eps"
  have c: "re_compile (anchored ps) = Inr ?r" using assms by (rule compile_anchored)
  have ne: "concat (map anchored_alts ps) \<noteq> []"
    using assms anchored_alts_nonempty by (cases ps) auto
  have "re_match ?r t \<longleftrightarrow> (\<exists>p\<in>set ps. re_match (mk_alt (anchored_alts p)) t)" for t
  proof -
    have "re_match ?r t \<longleftrightarrow> set (rems (mk_alt (concat (map anchored_alts ps))) t) \<noteq> {}"
      by (simp add: re_match_def)
    also have "\<dots> \<longleftrightarrow> (\<exists>p\<in>set ps. \<exists>r\<in>set (anchored_alts p). set (rems r t) \<noteq> {})"
      by (simp add: rems_mk_alt [OF ne])
    also have "\<dots> \<longleftrightarrow> (\<exists>p\<in>set ps. set (rems (mk_alt (anchored_alts p)) t) \<noteq> {})"
      using assms(2) by (simp add: rems_mk_alt anchored_alts_nonempty)
    also have "\<dots> \<longleftrightarrow> (\<exists>p\<in>set ps. re_match (mk_alt (anchored_alts p)) t)"
      by (simp add: re_match_def)
    finally show ?thesis .
  qed
  with c show ?thesis by blast
qed

subsection \<open>The default patterns and the selection\<close>

lemma compile_default_include:
  "re_compile [CHR ''.'', CHR ''*'', CHR 0x5C, CHR ''Z''] = Inr (Seq (Star AnyChar) (Seq EndZ Eps))"
  by code_simp

lemma valid_default_include: "valid_pattern ''.*''"
  by code_simp

lemma valid_empty_pattern: "valid_pattern []"
  by code_simp

lemma compile_empty_pattern: "re_compile [CHR 0x5C, CHR ''Z''] = Inr (Seq EndZ Eps)"
  by code_simp

lemma star_any_end:
  "length t \<le> n \<Longrightarrow> [] \<in> set (star_rems (rems AnyChar) n t) \<longleftrightarrow> CHR 0x0A \<notin> set t"
proof (induction n arbitrary: t)
  case 0
  then show ?case by simp
next
  case (Suc n)
  show ?case
  proof (cases t)
    case Nil
    then show ?thesis by simp
  next
    case (Cons c t')
    with Suc.prems have "length t' \<le> n" by simp
    from Suc.IH [OF this] Cons show ?thesis by auto
  qed
qed

lemma anchored_alts_default_include:
  "anchored_alts ''.*'' = [Seq (Star AnyChar) (Seq EndZ Eps)]"
  by code_simp

lemma anchored_alts_empty_pattern: "anchored_alts [] = [Seq EndZ Eps]"
  by code_simp

lemma matches_default_include:
  "re_match (mk_alt (anchored_alts ''.*'')) t \<longleftrightarrow> CHR 0x0A \<notin> set t"
proof -
  have "re_match (mk_alt (anchored_alts ''.*'')) t \<longleftrightarrow>
        [] \<in> set (star_rems (rems AnyChar) (length t) t)"
    by (auto simp: anchored_alts_default_include re_match_def)
  then show ?thesis by (simp add: star_any_end)
qed

lemma matches_empty_pattern: "re_match (mk_alt (anchored_alts [])) t \<longleftrightarrow> t = []"
  by (simp add: anchored_alts_empty_pattern re_match_def)

lemma anchored_Nil: "anchored [] = anchored [[]]"
  by (simp add: anchored_def)

lemma anchored_regex:
  assumes "\<forall>p\<in>set ps. valid_pattern p" and "valid_pattern d"
  shows "\<exists>r. re_compile (anchored (if ps = [] then [d] else ps)) = Inr r \<and>
           (\<forall>t. re_match r t \<longleftrightarrow>
              (if ps = [] then re_match (mk_alt (anchored_alts d)) t else (\<exists>p\<in>set ps. re_match (mk_alt (anchored_alts p)) t)))"
proof (cases "ps = []")
  case True
  from match_anchored [of "[d]"] assms(2) True show ?thesis by simp
next
  case False
  from match_anchored [OF False assms(1)] False show ?thesis by simp
qed

lemma py_or_patterns: "py_or ps d = (if patterns_of ps = [] then d else patterns_of ps)"
  by (auto simp: py_or_def patterns_of_def split: option.splits list.splits)

lemma select_tasks_filter:
  assumes "\<forall>p\<in>set (patterns_of task_names). valid_pattern p"
    and "\<forall>p\<in>set (patterns_of excluded_tasks). valid_pattern p"
  shows "select_tasks names task_names excluded_tasks =
     Inr (filter (\<lambda>t.
        (if patterns_of task_names = [] then CHR 0x0A \<notin> set t
         else \<exists>p\<in>set (patterns_of task_names). re_match (mk_alt (anchored_alts p)) t) \<and>
        \<not> (if patterns_of excluded_tasks = [] then t = []
           else \<exists>p\<in>set (patterns_of excluded_tasks). re_match (mk_alt (anchored_alts p)) t)) names)"
proof -
  from anchored_regex [OF assms(1) valid_default_include] obtain inc where
    i1: "re_compile (anchored (py_or task_names [''.*''])) = Inr inc"
    and i2: "\<And>t. re_match inc t \<longleftrightarrow>
      (if patterns_of task_names = [] then CHR 0x0A \<notin> set t
       else \<exists>p\<in>set (patterns_of task_names). re_match (mk_alt (anchored_alts p)) t)"
    by (auto simp: py_or_patterns matches_default_include)
  have "\<exists>exc. re_compile (anchored (py_or excluded_tasks [])) = Inr exc \<and>
     (\<forall>t. re_match exc t \<longleftrightarrow>
      (if patterns_of excluded_tasks = [] then t = []
       else \<exists>p\<in>set (patterns_of excluded_tasks). re_match (mk_alt (anchored_alts p)) t))"
  proof (cases "patterns_of excluded_tasks = []")
    case True
    with anchored_regex [OF assms(2) valid_empty_pattern] show ?thesis
      by (simp add: py_or_patterns matches_empty_pattern anchored_Nil)
  next
    case False
    with anchored_regex [OF assms(2) valid_empty_pattern] show ?thesis
      by (simp add: py_or_patterns)
  qed
  then obtain exc where
    e1: "re_compile (anchored (py_or excluded_tasks [])) = Inr exc"
    and e2: "\<And>t. re_match exc t \<longleftrightarrow>
      (if patterns_of excluded_tasks = [] then t = []
       else \<exists>p\<in>set (patterns_of excluded_tasks). re_match (mk_alt (anchored_alts p)) t)"
    by blast
  show ?thesis by (simp add: select_tasks_def i1 e1 i2 e2)
qed

subsection \<open>Patterns with no alternation at the top level\<close>

text \<open>
  Anchored by \<^verbatim>\<open>\Z\<close> at its end and matched at the start of a name, a pattern that is
  no alternation at its top level matches the whole name or nothing.
\<close>

lemma rems_mk_seq_append:
  "set (rems (mk_seq (xs @ ys)) s) = (\<Union>u\<in>set (rems (mk_seq xs) s). set (rems (mk_seq ys) u))"
  by (induction xs arbitrary: s) auto

lemma match_seq_EndZ: "re_match (mk_seq (xs @ [EndZ])) t \<longleftrightarrow> re_fullmatch (mk_seq xs) t"
proof -
  have "set (rems (mk_seq [EndZ]) u) = (if u = [] then {[]} else {})" for u
    by simp
  then have "set (rems (mk_seq (xs @ [EndZ])) t) \<noteq> {} \<longleftrightarrow> [] \<in> set (rems (mk_seq xs) t)"
    unfolding rems_mk_seq_append by auto
  then show ?thesis by (simp add: re_match_def re_fullmatch_def)
qed

lemma mk_seq_no_Alt: "mk_seq xs \<noteq> Alt r1 r2"
  by (cases xs) simp_all



text \<open>
  With an alternation at the top level, \<^verbatim>\<open>\Z\<close> anchors the last alternative only: a
  pattern that matches a whole name still matches it when it is anchored.
\<close>

lemma rems_mk_seq_EndZ_subset:
  "[] \<in> set (rems (mk_seq xs) t) \<Longrightarrow> re_match (mk_seq (xs @ [EndZ])) t"
  by (simp add: match_seq_EndZ re_fullmatch_def)

lemma whole_name_anchored:
  assumes "valid_pattern p" and "matches_whole_name p t"
  shows "re_match (mk_alt (anchored_alts p)) t"
proof -
  from assms(1) obtain toks f where l: "lex p = Inr toks"
    and st: "steps toks [empty_frame] = Inr [f]"
    and aa: "anchored_alts p = alts f @ [mk_seq (cur f @ [EndZ])]"
    by (rule valid_patternD)
  have c: "re_compile p = Inr (close_frame f)"
    by (simp add: re_compile_def parse_def l st)
  from assms(2) c have "[] \<in> set (rems (mk_alt (alts f @ [mk_seq (cur f)])) t)"
    by (simp add: matches_whole_name_def re_fullmatch_def close_frame_def)
  then have "[] \<in> (\<Union>r\<in>set (alts f @ [mk_seq (cur f)]). set (rems r t))"
    by (simp add: rems_mk_alt)
  then consider r where "r \<in> set (alts f)" and "[] \<in> set (rems r t)"
    | "[] \<in> set (rems (mk_seq (cur f)) t)" by auto
  then have "\<exists>r\<in>set (anchored_alts p). set (rems r t) \<noteq> {}"
  proof cases
    case 1
    then have "r \<in> set (anchored_alts p)" and "set (rems r t) \<noteq> {}"
      unfolding aa by auto
    then show ?thesis by blast
  next
    case 2
    then have "re_match (mk_seq (cur f @ [EndZ])) t" by (rule rems_mk_seq_EndZ_subset)
    then have "set (rems (mk_seq (cur f @ [EndZ])) t) \<noteq> {}" by (simp add: re_match_def)
    moreover have "mk_seq (cur f @ [EndZ]) \<in> set (anchored_alts p)" unfolding aa by simp
    ultimately show ?thesis by blast
  qed
  then have "set (rems (mk_alt (anchored_alts p)) t) \<noteq> {}"
    by (simp add: rems_mk_alt aa)
  then show ?thesis by (simp add: re_match_def)
qed
subsection \<open>The loop over the tasks\<close>

lemma logging_simps [simp]:
  "output_dirs (logging l m st) = output_dirs st"
  "plans (logging l m st) = plans st"
  "files (logging l m st) = files st"
  "log (logging l m st) = log st @ [(l, m)]"
  by (simp_all add: logging_def)

lemma loop_body_refuse:
  assumes "truthy_str (cache_dir task)"
    and "cache_dir task \<noteq> Some (output_dir_of seqio cache_root task)"
    and "overwrite"
  shows "loop_body seqio cache_root mie overwrite contents task st =
     Continue (if supports_caching task
               then logging WARNING
                      (Not_overwriting (the (cache_dir task)) (output_dir_of seqio cache_root task)) st
               else logging INFO (Skipping_no_caching (name task)) st)"
  using assms by (simp add: loop_body_def overwrite_check_def output_dir_of_def Let_def)

lemma map_of_rmtree:
  "rmtree dir fs = Inr fs' \<Longrightarrow> map_of fs' p = (if inside dir p then None else map_of fs p)"
proof -
  assume "rmtree dir fs = Inr fs'"
  then have fs': "fs' = filter (\<lambda>pc. \<not> inside dir (fst pc)) fs"
    by (auto simp: rmtree_def split: if_splits)
  show ?thesis unfolding fs'
    by (induction fs) auto
qed

lemma TaskRegistry_get_member:
  "TaskRegistry_get seqio n = Inr t \<Longrightarrow> t \<in> set (TaskRegistry seqio)"
  by (auto simp: TaskRegistry_get_def find_Some_iff split: option.splits)

lemma loop_invariant_logging [simp]:
  "loop_invariant seqio cache_root ow fs (logging l m s) = loop_invariant seqio cache_root ow fs s"
  by (simp add: loop_invariant_def)

lemma loop_invariant_rmtree:
  assumes inv: "loop_invariant seqio cache_root ow fs s"
    and rm: "rmtree (output_dir_of seqio cache_root task) (files s) = Inr fs'"
    and mem: "task \<in> set (TaskRegistry seqio)"
    and oip: "overwrites_in_place seqio cache_root ow task"
  shows "loop_invariant seqio cache_root ow fs (s\<lparr>files := fs'\<rparr>)"
proof -
  have "map_of fs' p = map_of fs p"
    if "\<forall>t \<in> set (TaskRegistry seqio). overwrites_in_place seqio cache_root ow t \<longrightarrow>
            \<not> inside (output_dir_of seqio cache_root t) p" for p
  proof -
    from that mem oip have "\<not> inside (output_dir_of seqio cache_root task) p" by blast
    with map_of_rmtree [OF rm, of p] have "map_of fs' p = map_of (files s) p" by simp
    moreover have "map_of (files s) p = map_of fs p"
      using that inv unfolding loop_invariant_def by blast
    ultimately show ?thesis by simp
  qed
  with inv show ?thesis by (simp add: loop_invariant_def)
qed

lemma loop_invariant_add_task:
  assumes inv: "loop_invariant seqio cache_root ow fs s"
    and mem: "task \<in> set (TaskRegistry seqio)"
    and cn: "cached_now seqio cache_root ow
             \<lparr>plan_task = task, plan_output_dir = output_dir_of seqio cache_root task,
              plan_max_input_examples = mie, plan_completed_file_contents = contents\<rparr>"
  shows "loop_invariant seqio cache_root ow fs
           (add_task task (output_dir_of seqio cache_root task) mie contents s)"
  using assms by (auto simp: loop_invariant_def add_task_def Let_def logging_def)

lemma loop_body_cases:
  "loop_body seqio cache_root mie ow contents task st =
     (let od = output_dir_of seqio cache_root task in
      if \<not> supports_caching task then
        Continue (logging INFO (Skipping_no_caching (name task)) st)
      else if truthy_str (cache_dir task) \<and> \<not> ow then
        Continue (logging INFO (Skipping_cached (name task) (the (cache_dir task))) st)
      else if truthy_str (cache_dir task) \<and> cache_dir task \<noteq> Some od then
        Continue (logging WARNING (Not_overwriting (the (cache_dir task)) od) st)
      else if truthy_str (cache_dir task) then
        (case rmtree od (files st) of
           Inl e \<Rightarrow> Raise e (logging WARNING (Overwriting (name task) od) st)
         | Inr fs' \<Rightarrow>
             if splits task = [] then
               Continue (logging WARNING (Skipping_no_splits (name task))
                  ((logging WARNING (Overwriting (name task) od) st)\<lparr>files := fs'\<rparr>))
             else Next (add_task task od mie contents
                  ((logging WARNING (Overwriting (name task) od) st)\<lparr>files := fs'\<rparr>)))
      else if splits task = [] then
        Continue (logging WARNING (Skipping_no_splits (name task)) st)
      else Next (add_task task od mie contents st))"
  by (auto simp: loop_body_def overwrite_check_def output_dir_of_def Let_def split: sum.splits)

lemma loop_body_invariant:
  assumes inv: "loop_invariant seqio cache_root ow fs st"
    and mem: "task \<in> set (TaskRegistry seqio)"
  shows "case loop_body seqio cache_root mie ow contents task st of
           Next st' \<Rightarrow> loop_invariant seqio cache_root ow fs st'
         | Continue st' \<Rightarrow> loop_invariant seqio cache_root ow fs st'
         | Raise e st' \<Rightarrow> loop_invariant seqio cache_root ow fs st'"
proof -
  let ?od = "output_dir_of seqio cache_root task"
  let ?tp = "\<lparr>plan_task = task, plan_output_dir = ?od, plan_max_input_examples = mie,
              plan_completed_file_contents = contents\<rparr>"
  let ?st1 = "logging WARNING (Overwriting (name task) ?od) st"
  have inv1: "loop_invariant seqio cache_root ow fs ?st1" using inv by simp
  consider (nc) "\<not> supports_caching task"
    | (cached) "supports_caching task" "truthy_str (cache_dir task)" "\<not> ow"
    | (refuse) "supports_caching task" "truthy_str (cache_dir task)" "ow"
               "cache_dir task \<noteq> Some ?od"
    | (inplace) "supports_caching task" "truthy_str (cache_dir task)" "ow"
               "cache_dir task = Some ?od"
    | (fresh) "supports_caching task" "\<not> truthy_str (cache_dir task)"
    by blast
  then show ?thesis
  proof cases
    case nc
    then show ?thesis using inv by (simp add: loop_body_cases Let_def)
  next
    case cached
    then show ?thesis using inv by (simp add: loop_body_cases Let_def)
  next
    case refuse
    then show ?thesis using inv by (simp add: loop_body_cases Let_def)
  next
    case inplace
    then have oip: "overwrites_in_place seqio cache_root ow task"
      by (simp add: overwrites_in_place_def)
    show ?thesis
    proof (cases "rmtree ?od (files st)")
      case (Inl e)
      with inplace inv show ?thesis by (simp add: loop_body_cases Let_def)
    next
      case (Inr fs')
      then have "rmtree ?od (files ?st1) = Inr fs'" by simp
      with inv1 have inv2: "loop_invariant seqio cache_root ow fs (?st1\<lparr>files := fs'\<rparr>)"
        using mem oip by (rule loop_invariant_rmtree)
      show ?thesis
      proof (cases "splits task = []")
        case True
        with inplace Inr inv2 show ?thesis by (simp add: loop_body_cases Let_def)
      next
        case False
        with inplace have "cached_now seqio cache_root ow ?tp" by (simp add: cached_now_def)
        with inv2 mem have "loop_invariant seqio cache_root ow fs
           (add_task task ?od mie contents (?st1\<lparr>files := fs'\<rparr>))"
          by (rule loop_invariant_add_task)
        with inplace Inr False show ?thesis by (simp add: loop_body_cases Let_def)
      qed
    qed
  next
    case fresh
    show ?thesis
    proof (cases "splits task = []")
      case True
      with fresh inv show ?thesis by (simp add: loop_body_cases Let_def)
    next
      case False
      with fresh have "cached_now seqio cache_root ow ?tp" by (simp add: cached_now_def)
      with inv mem have "loop_invariant seqio cache_root ow fs (add_task task ?od mie contents st)"
        by (rule loop_invariant_add_task)
      with fresh False show ?thesis by (simp add: loop_body_cases Let_def)
    qed
  qed
qed

lemma task_loop_invariant:
  "loop_invariant seqio cache_root overwrite fs st \<Longrightarrow>
   task_loop seqio cache_root mie overwrite contents selected st = (e, st') \<Longrightarrow>
   loop_invariant seqio cache_root overwrite fs st'"
proof (induction selected arbitrary: st)
  case Nil
  then show ?case by simp
next
  case (Cons n selected)
  show ?case
  proof (cases "TaskRegistry_get seqio n")
    case (Inl err)
    with Cons.prems show ?thesis by simp
  next
    case (Inr task)
    then have mem: "task \<in> set (TaskRegistry seqio)" by (rule TaskRegistry_get_member)
    from loop_body_invariant [OF Cons.prems(1) mem, of mie contents]
    show ?thesis using Cons.prems(2) Cons.IH Inr
      by (cases "loop_body seqio cache_root mie overwrite contents task st") auto
  qed
qed

lemma run_pipeline_invariant:
  assumes "run_pipeline seqio fs task_names cache_root mie excluded_tasks overwrite contents = (e, st')"
  shows "loop_invariant seqio cache_root overwrite fs st'"
proof -
  have init: "loop_invariant seqio cache_root overwrite fs
     \<lparr>output_dirs = [], plans = [], files = fs, log = []\<rparr>"
    by (simp add: loop_invariant_def)
  show ?thesis
  proof (cases "select_tasks (TaskRegistry_names seqio) task_names excluded_tasks")
    case (Inl err)
    with assms init show ?thesis by (auto simp: run_pipeline_def)
  next
    case (Inr selected)
    with assms have "task_loop seqio cache_root mie overwrite
        (case contents of None \<Rightarrow> [] | Some c \<Rightarrow> c) selected
        \<lparr>output_dirs = [], plans = [], files = fs, log = []\<rparr> = (e, st')"
      by (simp add: run_pipeline_def)
    with init show ?thesis by (rule task_loop_invariant)
  qed
qed

subsection \<open>The examples of a shard\<close>

lemma length_concat_replicate: "length (concat (replicate k ds)) = k * length ds"
  by (induction k) auto

lemma nth_concat_replicate:
  "i < k * length ds \<Longrightarrow> concat (replicate k ds) ! i = ds ! (i mod length ds)"
proof (induction k arbitrary: i)
  case 0
  then show ?case by simp
next
  case (Suc k)
  show ?case
  proof (cases "i < length ds")
    case True
    then show ?thesis by (simp add: nth_append)
  next
    case False
    with Suc.prems have "i - length ds < k * length ds" by simp
    from Suc.IH [OF this] False show ?thesis
      by (simp add: nth_append le_mod_geq)
  qed
qed

lemma cyclic_take_length: "ds \<noteq> [] \<Longrightarrow> length (cyclic_take k ds) = k"
proof -
  assume "ds \<noteq> []"
  then have "1 \<le> length ds" by (cases ds) auto
  then have "k * 1 \<le> k * length ds" by (rule mult_le_mono2)
  then show ?thesis by (simp add: cyclic_take_def length_concat_replicate)
qed

lemma cyclic_take_nth:
  assumes "ds \<noteq> []" and "i < k"
  shows "cyclic_take k ds ! i = ds ! (i mod length ds)"
proof -
  from assms(1) have "1 \<le> length ds" by (cases ds) auto
  then have "k * 1 \<le> k * length ds" by (rule mult_le_mono2)
  then have "k \<le> k * length ds" by simp
  with assms(2) have "i < k * length ds" by (rule less_le_trans)
  then show ?thesis using assms(2) by (simp add: cyclic_take_def nth_concat_replicate)
qed

lemma repeat_take_cyclic:
  "0 \<le> n \<Longrightarrow> ds \<noteq> [] \<Longrightarrow> repeat_take n ds = Inr (cyclic_take (nat n) ds)"
  by (auto simp: repeat_take_def cyclic_take_def)

lemma emit_examples_capped:
  assumes "0 < m" and "shard_index < length (source task split)"
    and "source task split ! shard_index \<noteq> []"
  shows "emit_examples task split (Some m) shard_index =
     Inr (preprocess_precache task
            (cyclic_take (shard_quota m task split) (source task split ! shard_index)))"
proof -
  from assms(2) have n: "length (source task split) \<noteq> 0" by auto
  from assms(1) n have q: "0 \<le> m div int (length (source task split))"
    by (simp add: pos_imp_zdiv_nonneg_iff)
  show ?thesis
    using assms n repeat_take_cyclic [OF q assms(3)]
    by (simp add: emit_examples_def Let_def truthy_int_def int_truediv_def shard_quota_def)
qed

lemma collect_map_Inr_nth:
  "\<forall>i<length xs. g i = Inr (f (xs ! i)) \<Longrightarrow> collect (map g [0 ..< length xs]) = Inr (map f xs)"
proof (induction xs rule: rev_induct)
  case Nil
  then show ?case by simp
next
  case (snoc x xs)
  have "\<forall>i<length xs. g i = Inr (f (xs ! i))"
  proof (intro allI impI)
    fix i assume "i < length xs"
    with snoc.prems show "g i = Inr (f (xs ! i))"
      by (metis length_append_singleton less_Suc_eq nth_append)
  qed
  from snoc.IH [OF this] have a: "collect (map g [0 ..< length xs]) = Inr (map f xs)" .
  from snoc.prems have b: "g (length xs) = Inr (f x)"
    by (metis length_append_singleton lessI nth_append_length)
  have c: "collect (rs @ [Inr y]) = (case collect rs of Inl e \<Rightarrow> Inl e | Inr ys \<Rightarrow> Inr (ys @ [y]))"
    for rs :: "(error + 'b) list" and y
    by (induction rs rule: collect.induct) (auto split: sum.splits)
  show ?case using a b by (simp add: c)
qed

lemma PreprocessTask_capped:
  assumes "0 < m" and "\<forall>sh \<in> set (source task split). sh \<noteq> []"
  shows "PreprocessTask task split (Some m) =
     Inr (concat (map (\<lambda>sh. preprocess_precache task (cyclic_take (shard_quota m task split) sh))
                      (source task split)))"
proof -
  have "\<forall>i<length (source task split). emit_examples task split (Some m) i =
     Inr ((\<lambda>sh. preprocess_precache task (cyclic_take (shard_quota m task split) sh))
           (source task split ! i))"
    using assms by (simp add: emit_examples_capped)
  from collect_map_Inr_nth [OF this] show ?thesis
    by (simp add: PreprocessTask_def Flatten_def)
qed

subsection \<open>A run of the transforms of a task\<close>

lemma Filter_False [simp]: "Filter (\<lambda>_. False) xs = []"
  by (simp add: Filter_def)

lemma node_output_completed:
  "node_output seqio r tp write_completed_file =
     Inr ((plan_output_dir tp, COMPLETED), PlainText (plan_completed_file_contents tp))"
  by (simp add: node_output_def WriteToText_def)

lemma node_output_path:
  assumes "node_output seqio r tp n = Inr (p, c)"
  shows "p = (plan_output_dir tp,
              case n of write_tfrecord s \<Rightarrow> tfrecord_files s | write_info s \<Rightarrow> info_json s
                | write_stats s \<Rightarrow> stats_json s | write_completed_file \<Rightarrow> COMPLETED)"
  using assms by (cases n) (auto simp: node_output_def Let_def split: sum.splits)

lemma node_output_same_path:
  assumes "node_output seqio r tp n = Inr (p, c)" and "node_output seqio r tp n' = Inr (p, c')"
  shows "n = n'"
  using node_output_path [OF assms(1)] node_output_path [OF assms(2)]
  by (cases n; cases n') auto

lemma completion_values_sinks: "write_completed_file \<notin> set (completion_values tp)"
  by (auto simp: completion_values_def)

lemma completion_values_split:
  "set (completion_values tp) =
     (\<Union>s \<in> set (splits (plan_task tp)). {write_tfrecord s, write_info s, write_stats s})"
  by (auto simp: completion_values_def)

lemma run_node_cases:
  obtains (skip) "run_node seqio r tp n st = st"
  | (fail) "n \<notin> set (completed st)" and "n \<notin> set (failed st)"
      and "set (inputs tp n) \<subseteq> set (completed st)"
      and "run_node seqio r tp n st = st\<lparr>failed := n # failed st\<rparr>"
  | (ran) p c where "n \<notin> set (completed st)" and "n \<notin> set (failed st)"
      and "set (inputs tp n) \<subseteq> set (completed st)"
      and "node_output seqio r tp n = Inr (p, c)" and "io_ok r p"
      and "run_node seqio r tp n st =
             st\<lparr>disk := AList.update p c (disk st), completed := n # completed st\<rparr>"
proof (cases "n \<notin> set (completion_values tp) \<union> {write_completed_file} \<or>
              n \<in> set (completed st) \<union> set (failed st) \<or>
              \<not> set (inputs tp n) \<subseteq> set (completed st)")
  case True
  then have "run_node seqio r tp n st = st" by (auto simp: run_node_def)
  then show ?thesis by (rule skip)
next
  case False
  then have a: "n \<notin> set (completed st)" and b: "n \<notin> set (failed st)"
    and c: "set (inputs tp n) \<subseteq> set (completed st)" by auto
  show ?thesis
  proof (cases "node_output seqio r tp n")
    case (Inl e)
    with False have "run_node seqio r tp n st = st\<lparr>failed := n # failed st\<rparr>"
      by (simp add: run_node_def)
    with a b c show ?thesis by (rule fail)
  next
    case (Inr pc)
    obtain p k where pc: "pc = (p, k)" by (cases pc)
    show ?thesis
    proof (cases "io_ok r p")
      case True
      with False Inr pc have "run_node seqio r tp n st =
             st\<lparr>disk := AList.update p k (disk st), completed := n # completed st\<rparr>"
        by (simp add: run_node_def write_file_def)
      with a b c Inr pc True show ?thesis by (intro ran [of p k]) simp_all
    next
      case no: False
      with False Inr pc have "run_node seqio r tp n st = st\<lparr>failed := n # failed st\<rparr>"
        by (simp add: run_node_def write_file_def)
      with a b c show ?thesis by (rule fail)
    qed
  qed
qed

lemma run_node_invariant:
  assumes "exec_invariant seqio r tp fs st"
  shows "exec_invariant seqio r tp fs (run_node seqio r tp n st)"
proof (cases rule: run_node_cases [of seqio r tp n st])
  case skip
  with assms show ?thesis by simp
next
  case fail
  with assms show ?thesis by (auto simp: exec_invariant_def)
next
  case (ran p c)
  have marker: "set (completion_values tp) \<subseteq> set (completed st)" if "n = write_completed_file"
    using that ran(3) by (simp add: inputs_def)
  have others: "\<exists>p' c'. node_output seqio r tp n' = Inr (p', c') \<and>
      map_of (AList.update p c (disk st)) p' = Some c'" if "n' \<in> set (completed st)" for n'
  proof -
    from that assms obtain p' c' where o: "node_output seqio r tp n' = Inr (p', c')"
      and m: "map_of (disk st) p' = Some c'" by (auto simp: exec_invariant_def)
    have "p' \<noteq> p"
    proof
      assume "p' = p"
      with o ran(4) have "n' = n" by (auto dest: node_output_same_path)
      with that ran(1) show False by simp
    qed
    with o m show ?thesis by (simp add: update_conv')
  qed
  have keep: "map_of (AList.update p c (disk st)) (plan_output_dir tp, COMPLETED) =
        map_of fs (plan_output_dir tp, COMPLETED)"
    if "n \<noteq> write_completed_file" "write_completed_file \<notin> set (completed st)"
  proof -
    from node_output_path [OF ran(4)] that(1) have "p \<noteq> (plan_output_dir tp, COMPLETED)"
      by (cases n) auto
    with that(2) assms show ?thesis by (simp add: update_conv' exec_invariant_def)
  qed
  let ?st' = "st\<lparr>disk := AList.update p c (disk st), completed := n # completed st\<rparr>"
  have i1: "set (completed ?st') \<inter> set (failed ?st') = {}"
    using assms ran(2) by (auto simp: exec_invariant_def)
  have i2: "write_completed_file \<in> set (completed ?st') \<longrightarrow>
        set (completion_values tp) \<subseteq> set (completed ?st')"
    using assms marker by (auto simp: exec_invariant_def)
  have i3: "\<forall>n' \<in> set (completed ?st').
        \<exists>p' c'. node_output seqio r tp n' = Inr (p', c') \<and> map_of (disk ?st') p' = Some c'"
  proof
    fix n' assume "n' \<in> set (completed ?st')"
    then consider "n' = n" | "n' \<in> set (completed st)" by auto
    then show "\<exists>p' c'. node_output seqio r tp n' = Inr (p', c') \<and> map_of (disk ?st') p' = Some c'"
    proof cases
      case 1
      with ran(4) show ?thesis by (simp add: update_conv')
    next
      case 2
      from others [OF this] show ?thesis by simp
    qed
  qed
  have i4: "write_completed_file \<notin> set (completed ?st') \<longrightarrow>
        map_of (disk ?st') (plan_output_dir tp, COMPLETED) =
        map_of fs (plan_output_dir tp, COMPLETED)"
    using keep by auto
  from i1 i2 i3 i4 show ?thesis
    unfolding ran(6) exec_invariant_def by blast
qed

lemma run_plan_invariant:
  "exec_invariant seqio r tp fs st \<Longrightarrow> exec_invariant seqio r tp fs (run_plan seqio r tp schedule st)"
  unfolding run_plan_def
  by (induction schedule arbitrary: st) (auto intro: run_node_invariant)

lemma start_invariant: "exec_invariant seqio r tp fs (start fs)"
  by (simp add: exec_invariant_def start_def)

lemma run_node_failed_mono: "set (failed st) \<subseteq> set (failed (run_node seqio r tp n st))"
  by (cases rule: run_node_cases [of seqio r tp n st]) auto

lemma run_plan_failed_mono: "set (failed st) \<subseteq> set (failed (run_plan seqio r tp schedule st))"
  unfolding run_plan_def
proof (induction schedule arbitrary: st)
  case Nil
  then show ?case by simp
next
  case (Cons n schedule)
  from run_node_failed_mono [of st seqio r tp n] Cons [of "run_node seqio r tp n st"]
  show ?case by auto
qed

lemma run_plan_append:
  "run_plan seqio r tp (s1 @ s2) st = run_plan seqio r tp s2 (run_plan seqio r tp s1 st)"
  by (simp add: run_plan_def)

lemma completed_step:
  assumes "write_completed_file \<notin> set (completed st)"
    and "write_completed_file \<in> set (completed (run_node seqio r tp n st))"
  shows "n = write_completed_file \<and> set (completion_values tp) \<subseteq> set (completed st)"
proof (cases rule: run_node_cases [of seqio r tp n st])
  case skip
  with assms show ?thesis by simp
next
  case fail
  with assms show ?thesis by simp
next
  case (ran p c)
  with assms have "n = write_completed_file" by auto
  with ran(3) show ?thesis by (simp add: inputs_def)
qed


lemma built_with_logging [simp]: "built_with contents mie (logging l m st) = built_with contents mie st"
  by (simp add: built_with_def)

lemma built_with_files [simp]: "built_with contents mie (st\<lparr>files := fs'\<rparr>) = built_with contents mie st"
  by (simp add: built_with_def)

lemma built_with_add_task:
  "built_with contents mie st \<Longrightarrow> built_with contents mie (add_task task od mie contents st)"
  by (auto simp: built_with_def add_task_def Let_def logging_def)

lemma loop_body_built_with:
  assumes "built_with contents mie st"
  shows "case loop_body seqio cache_root mie ow contents task st of
           Next st' \<Rightarrow> built_with contents mie st'
         | Continue st' \<Rightarrow> built_with contents mie st'
         | Raise e st' \<Rightarrow> built_with contents mie st'"
  using assms
  by (auto simp: loop_body_cases Let_def built_with_add_task split: sum.splits)

lemma task_loop_built_with:
  "built_with contents mie st \<Longrightarrow>
   task_loop seqio cache_root mie ow contents selected st = (e, st') \<Longrightarrow>
   built_with contents mie st'"
proof (induction selected arbitrary: st)
  case Nil
  then show ?case by simp
next
  case (Cons n selected)
  show ?case
  proof (cases "TaskRegistry_get seqio n")
    case (Inl err)
    with Cons.prems show ?thesis by simp
  next
    case (Inr task)
    from loop_body_built_with [OF Cons.prems(1), of seqio cache_root ow task]
    show ?thesis using Cons.prems(2) Cons.IH Inr
      by (cases "loop_body seqio cache_root mie ow contents task st") auto
  qed
qed

lemma run_pipeline_built_with:
  assumes "run_pipeline seqio fs task_names cache_root mie excluded_tasks ow contents = (e, st')"
  shows "built_with (case contents of None \<Rightarrow> [] | Some c \<Rightarrow> c) mie st'"
proof -
  have init: "built_with (case contents of None \<Rightarrow> [] | Some c \<Rightarrow> c) mie
     \<lparr>output_dirs = [], plans = [], files = fs, log = []\<rparr>"
    by (simp add: built_with_def)
  show ?thesis
  proof (cases "select_tasks (TaskRegistry_names seqio) task_names excluded_tasks")
    case (Inl err)
    with assms init show ?thesis by (auto simp: run_pipeline_def)
  next
    case (Inr selected)
    with assms have "task_loop seqio cache_root mie ow
        (case contents of None \<Rightarrow> [] | Some c \<Rightarrow> c) selected
        \<lparr>output_dirs = [], plans = [], files = fs, log = []\<rparr> = (e, st')"
      by (simp add: run_pipeline_def)
    with init show ?thesis by (rule task_loop_built_with)
  qed
qed

lemma inputs_sink: "n \<in> set (completion_values tp) \<Longrightarrow> inputs tp n = []"
  by (cases n) (auto simp: inputs_def completion_values_def)

lemma run_node_sink:
  assumes "n \<in> set (completion_values tp)" and "node_output seqio r tp n = Inr (p, c)"
    and "io_ok r p" and "failed st = []"
  shows "run_node seqio r tp n st =
     (if n \<in> set (completed st) then st
      else st\<lparr>disk := AList.update p c (disk st), completed := n # completed st\<rparr>)"
  using assms by (simp add: run_node_def inputs_sink write_file_def)

lemma run_sinks:
  assumes "\<forall>n \<in> set ns. n \<in> set (completion_values tp) \<and> (\<exists>out. node_output seqio r tp n = Inr out)"
    and "\<forall>p. io_ok r p" and "failed st = []"
  shows "failed (run_plan seqio r tp ns st) = [] \<and>
         set (completed (run_plan seqio r tp ns st)) = set (completed st) \<union> set ns"
  using assms(1,3)
proof (induction ns arbitrary: st)
  case Nil
  then show ?case by (simp add: run_plan_def)
next
  case (Cons n ns)
  from Cons.prems(1) obtain p c where n: "n \<in> set (completion_values tp)"
    and o: "node_output seqio r tp n = Inr (p, c)" by auto
  let ?st1 = "run_node seqio r tp n st"
  from run_node_sink [OF n o _ Cons.prems(2)] assms(2)
  have st1: "?st1 = (if n \<in> set (completed st) then st
      else st\<lparr>disk := AList.update p c (disk st), completed := n # completed st\<rparr>)" by simp
  then have f1: "failed ?st1 = []" and c1: "set (completed ?st1) = insert n (set (completed st))"
    using Cons.prems(2) by auto
  from Cons.prems(1) have "\<forall>n \<in> set ns. n \<in> set (completion_values tp) \<and>
      (\<exists>out. node_output seqio r tp n = Inr out)" by simp
  from Cons.IH [OF this f1] c1 show ?case by (simp add: run_plan_def)
qed

lemma run_node_marker:
  assumes "set (completion_values tp) \<subseteq> set (completed st)"
    and "write_completed_file \<notin> set (completed st)" and "failed st = []"
    and "io_ok r (plan_output_dir tp, COMPLETED)"
  shows "run_node seqio r tp write_completed_file st =
     st\<lparr>disk := AList.update (plan_output_dir tp, COMPLETED)
                  (PlainText (plan_completed_file_contents tp)) (disk st),
        completed := write_completed_file # completed st\<rparr>"
  using assms by (simp add: run_node_def inputs_def node_output_completed write_file_def)

lemma GetInfo_empty: "GetInfo seqio k [] = Inr [JDict []]"
  by (simp add: GetInfo_def Sample_FixedSizeGlobally_def info_dict_def)

lemma GetStats_empty: "GetStats feats [] = Inr [[(''examples'', 0)]]"
proof -
  have "token_counts feats [] = []"
    by (induction feats) (simp_all add: token_counts_def Flatten_def count_tokens_def FlatMap_def)
  then show ?thesis
    by (simp add: GetStats_def Let_def Count_Globally_def CombinePerKey_def to_dict_def
        Flatten_def CombineGlobally_def merge_dicts_def dict_update_def)
qed

lemma count_int_array:
  "count f ex = (case int_array f ex of Some xs \<Rightarrow> [(f @ ''_tokens'', greater_than_1 xs)] | None \<Rightarrow> [])"
  by (simp add: count_def int_array_def greater_than_1_def split: option.splits py_value.splits)

lemma count_tokens_feature_counts:
  "count_tokens pcoll g = map (Pair (g @ ''_tokens'')) (feature_counts g pcoll)"
proof (induction pcoll)
  case Nil
  then show ?case by (simp add: count_tokens_def FlatMap_def feature_counts_def List.map_filter_simps)
next
  case (Cons ex pcoll)
  then show ?case
    by (simp add: count_tokens_def FlatMap_def feature_counts_def List.map_filter_simps
        count_int_array split: option.splits)
qed

lemma values_of_append: "values_of k (xs @ ys) = values_of k xs @ values_of k ys"
  by (simp add: values_of_def)

lemma values_of_Pair: "values_of k (map (Pair k') cs) = (if k' = k then cs else [])"
  by (induction cs) (auto simp: values_of_def)

lemma values_of_token_counts:
  "distinct fs \<Longrightarrow> f \<in> set fs \<Longrightarrow>
   values_of (f @ ''_tokens'') (token_counts fs pcoll) = feature_counts f pcoll"
proof (induction fs)
  case Nil
  then show ?case by simp
next
  case (Cons g fs)
  have step: "token_counts (h # fs) pcoll = count_tokens pcoll h @ token_counts fs pcoll" for h
    by (simp add: token_counts_def Flatten_def)
  have absent: "h \<notin> set fs \<Longrightarrow> values_of (h @ ''_tokens'') (token_counts fs pcoll) = []" for h
    by (induction fs)
       (auto simp: token_counts_def Flatten_def values_of_append count_tokens_feature_counts
          values_of_Pair values_of_def)
  show ?case
  proof (cases "g = f")
    case True
    with Cons.prems have "f \<notin> set fs" by simp
    with True show ?thesis
      by (simp add: step values_of_append count_tokens_feature_counts values_of_Pair absent)
  next
    case False
    with Cons show ?thesis
      by (simp add: step values_of_append count_tokens_feature_counts values_of_Pair)
  qed
qed

lemma sum_key_present:
  "f \<in> set fs \<Longrightarrow> feature_counts f pcoll \<noteq> [] \<Longrightarrow> f @ ''_tokens'' \<in> set (sum_keys fs pcoll)"
proof (induction fs)
  case Nil
  then show ?case by simp
next
  case (Cons g fs)
  have step: "token_counts (h # fs) pcoll = count_tokens pcoll h @ token_counts fs pcoll" for h
    by (simp add: token_counts_def Flatten_def)
  show ?case
  proof (cases "g = f")
    case True
    from Cons.prems(2) obtain c cs where "feature_counts f pcoll = c # cs"
      by (cases "feature_counts f pcoll") auto
    with True show ?thesis
      by (simp add: sum_keys_def step count_tokens_feature_counts)
  next
    case False
    with Cons have "f @ ''_tokens'' \<in> set (sum_keys fs pcoll)" by simp
    then show ?thesis by (simp add: sum_keys_def step)
  qed
qed

lemma map_of_keyed:
  "k \<in> set ks \<Longrightarrow> distinct (map r ks) \<Longrightarrow> map_of (map (\<lambda>k. (r k, v k)) ks) (r k) = Some (v k)"
  by (rule map_of_is_SomeI) (auto simp: comp_def)

lemma merged_stats_lookup:
  assumes d: "distinct (stat_keys fs pcoll)" and k: "k \<in> set (sum_keys fs pcoll)"
  shows "map_of (merged_stats fs pcoll) ''examples'' = Some (int (length pcoll))"
    and "map_of (merged_stats fs pcoll) k = Some (sum_list (values_of k (token_counts fs pcoll)))"
    and "map_of (merged_stats fs pcoll) (str_replace ''tokens'' ''max_tokens'' k) =
           Some (Max (set (values_of k (token_counts fs pcoll))))"
proof -
  let ?ks = "sum_keys fs pcoll"
  let ?r = "str_replace ''tokens'' ''max_tokens''"
  let ?S = "map (\<lambda>k. (k, sum_list (values_of k (token_counts fs pcoll)))) ?ks"
  let ?R = "map (\<lambda>k. (?r k, Max (set (values_of k (token_counts fs pcoll))))) ?ks"
  have m: "merged_stats fs pcoll = (''examples'', int (length pcoll)) # ?S @ ?R"
    by (simp add: merged_stats_def Let_def)
  have d1: "''examples'' \<notin> set ?ks" "''examples'' \<notin> ?r ` set ?ks"
    and d2: "distinct ?ks" and d3: "distinct (map ?r ?ks)"
    and d4: "set ?ks \<inter> ?r ` set ?ks = {}"
    using d by (auto simp: stat_keys_def)
  show "map_of (merged_stats fs pcoll) ''examples'' = Some (int (length pcoll))"
    by (simp add: m)
  have ne: "k \<noteq> ''examples''" "?r k \<noteq> ''examples''" using k d1 by (metis, metis imageI)
  have S: "map_of ?S k = Some (sum_list (values_of k (token_counts fs pcoll)))"
    using map_of_keyed [of k ?ks "\<lambda>k. k"] k d2 by simp
  show "map_of (merged_stats fs pcoll) k = Some (sum_list (values_of k (token_counts fs pcoll)))"
    using ne S by (simp add: m map_add_Some_iff del: map_map)
  have "?r k \<notin> set ?ks" using d4 k by blast
  then have nS: "map_of ?S (?r k) = None"
    by (simp add: map_of_eq_None_iff image_image)
  have R: "map_of ?R (?r k) = Some (Max (set (values_of k (token_counts fs pcoll))))"
    using map_of_keyed [of k ?ks ?r] k d3 by simp
  show "map_of (merged_stats fs pcoll) (?r k) = Some (Max (set (values_of k (token_counts fs pcoll))))"
    using ne nS R by (simp add: m map_add_def)
qed


subsection \<open>Claims about \<^verbatim>\<open>GetStats\<close>\<close>

text \<open>
  Claim C1, as amended. Let \<open>f\<close> be a declared output feature whose name does not contain
  \<open>tokens\<close>, let at least one example hold \<open>f\<close> as an integer array, and let the keys of the
  dicts that \<^verbatim>\<open>GetStats\<close> merges be distinct. Then \<^verbatim>\<open>GetStats\<close> gives one dict, which
  maps \<open>examples\<close> to the number of examples, \<open>f_tokens\<close> to the sum over the examples of
  the number of elements of \<open>f\<close> greater than 1, and \<open>f_max_tokens\<close> to the maximum of
  that number. For the three examples \<open>[2,2,1]\<close>, \<open>[2,1,1]\<close>, \<open>[2,2,2]\<close> of \<open>f\<close> the dict
  is \<open>examples = 3\<close>, \<open>f_tokens = 6\<close>, \<open>f_max_tokens = 3\<close>.
\<close>

theorem GetStats_token_statistics:
  assumes "distinct feats" and "f \<in> set feats"
    and "feature_counts f pcoll \<noteq> []"
    and "\<not> sublist ''tokens'' f"
    and "distinct (stat_keys feats pcoll)"
  shows "(\<exists>d. GetStats feats pcoll = Inr [d] \<and>
           map_of d ''examples'' = Some (int (length pcoll)) \<and>
           map_of d (f @ ''_tokens'') = Some (sum_list (feature_counts f pcoll)) \<and>
           map_of d (f @ ''_max_tokens'') = Some (Max (set (feature_counts f pcoll)))) \<and>
         GetStats [''f'']
           [[(''f'', ndarray np_int32 [2, 2, 1])], [(''f'', ndarray np_int32 [2, 1, 1])],
            [(''f'', ndarray np_int32 [2, 2, 2])]] =
         Inr [[(''examples'', 3), (''f_tokens'', 6), (''f_max_tokens'', 3)]]"
proof -
  have k: "f @ ''_tokens'' \<in> set (sum_keys feats pcoll)"
    using assms(2,3) by (rule sum_key_present)
  have v: "values_of (f @ ''_tokens'') (token_counts feats pcoll) = feature_counts f pcoll"
    using assms(1,2) by (rule values_of_token_counts)
  have r: "str_replace ''tokens'' ''max_tokens'' (f @ ''_tokens'') = f @ ''_max_tokens''"
    using assms(4) by (simp add: str_replace_tokens_suffix str_replace_absent)
  have g: "GetStats feats pcoll = Inr [merged_stats feats pcoll]"
    using assms(5) by (rule GetStats_distinct)
  have "map_of (merged_stats feats pcoll) ''examples'' = Some (int (length pcoll))"
    and "map_of (merged_stats feats pcoll) (f @ ''_tokens'') =
         Some (sum_list (feature_counts f pcoll))"
    and "map_of (merged_stats feats pcoll) (f @ ''_max_tokens'') =
         Some (Max (set (feature_counts f pcoll)))"
    using merged_stats_lookup [OF assms(5) k] by (simp_all only: v r)
  with g have "\<exists>d. GetStats feats pcoll = Inr [d] \<and>
           map_of d ''examples'' = Some (int (length pcoll)) \<and>
           map_of d (f @ ''_tokens'') = Some (sum_list (feature_counts f pcoll)) \<and>
           map_of d (f @ ''_max_tokens'') = Some (Max (set (feature_counts f pcoll)))"
    by blast
  moreover have "GetStats [''f'']
           [[(''f'', ndarray np_int32 [2, 2, 1])], [(''f'', ndarray np_int32 [2, 1, 1])],
            [(''f'', ndarray np_int32 [2, 2, 2])]] =
         Inr [[(''examples'', 3), (''f_tokens'', 6), (''f_max_tokens'', 3)]]"
    by code_simp
  ultimately show ?thesis by blast
qed

text \<open>The amended C1 at the three examples of the claim.\<close>

lemma feature_counts_three: "feature_counts ''f''
       [[(''f'', ndarray np_int32 [2, 2, 1])], [(''f'', ndarray np_int32 [2, 1, 1])],
        [(''f'', ndarray np_int32 [2, 2, 2])]] = [2, 1, 3]"
  by (simp add: feature_counts_def List.map_filter_simps int_array_def greater_than_1_def)

lemma stat_keys_three: "stat_keys [''f'']
       [[(''f'', ndarray np_int32 [2, 2, 1])], [(''f'', ndarray np_int32 [2, 1, 1])],
        [(''f'', ndarray np_int32 [2, 2, 2])]] = [''examples'', ''f_tokens'', ''f_max_tokens'']"
  by code_simp

theorem GetStats_token_statistics_witness:
  "\<exists>d. GetStats [''f'']
         [[(''f'', ndarray np_int32 [2, 2, 1])], [(''f'', ndarray np_int32 [2, 1, 1])],
          [(''f'', ndarray np_int32 [2, 2, 2])]] = Inr [d] \<and>
       map_of d ''examples'' = Some 3 \<and> map_of d ''f_tokens'' = Some 6 \<and>
       map_of d ''f_max_tokens'' = Some 3"
proof -
  have "\<not> sublist ''tokens'' ''f''" by code_simp
  then show ?thesis
    using GetStats_token_statistics [of "[''f'']" "''f''"
       "[[(''f'', ndarray np_int32 [2, 2, 1])], [(''f'', ndarray np_int32 [2, 1, 1])],
          [(''f'', ndarray np_int32 [2, 2, 2])]]"]
    by (simp add: feature_counts_three stat_keys_three)
qed

text \<open>
  Claim C1 as stated fails: for a feature named \<open>tokens\<close> the dict has no key
  \<open>tokens_max_tokens\<close>; for the features \<open>a\<close> and \<open>a_max\<close> the maximum of the first and
  the sum of the second share the key \<open>a_max_tokens\<close> and the assertion of the merge
  raises, so no dict is written; and for no examples at all the dict holds \<open>examples\<close> only.
\<close>

theorem GetStats_token_statistics_counterexample:
  "GetStats [''tokens''] [[(''tokens'', ndarray np_int32 [2, 2, 1])]] =
     Inr [[(''examples'', 1), (''tokens_tokens'', 2), (''max_tokens_max_tokens'', 2)]] \<and>
   map_of [(''examples'', 1), (''tokens_tokens'', 2), (''max_tokens_max_tokens'', 2 :: int)]
     ''tokens_max_tokens'' = None \<and>
   GetStats [''a'', ''a_max'']
     [[(''a'', ndarray np_int32 [2, 2, 1]), (''a_max'', ndarray np_int32 [2, 1, 1])]] =
     Inl AssertionError \<and>
   GetStats [''f''] [] = Inr [[(''examples'', 0)]]"
  by code_simp


text \<open>Distinct keys all over are dicts no two of which share a key.\<close>

lemma distinct_concat_pairwise:
  "\<forall>ks\<in>set kss. distinct ks \<Longrightarrow> distinct (concat kss) = pairwise_disjoint kss"
  by (induction kss) auto

text \<open>
  Claim C8. For dicts (each with distinct keys), \<^verbatim>\<open>_merge_dicts\<close> raises AssertionError
  when two of them share a key, and otherwise returns a dict that holds every entry of every
  dict: no value overwrites another. \<^verbatim>\<open>GetStats\<close> raises AssertionError exactly when the
  keys of the example count, the sums and the renamed maxima are not distinct; when they
  are distinct the assertion does not fire and the merged dict is the result.
\<close>

theorem merge_dicts_asserts_disjoint_keys:
  assumes "\<forall>d\<in>set dicts. distinct (map fst d)"
  shows "merge_dicts dicts =
           (if pairwise_disjoint (map (map fst) dicts) then Inr (concat dicts)
            else Inl AssertionError) \<and>
         (GetStats feats pcoll = Inl AssertionError \<longleftrightarrow>
            \<not> distinct (stat_keys feats pcoll)) \<and>
         (distinct (stat_keys feats pcoll) \<longrightarrow>
            GetStats feats pcoll = Inr [merged_stats feats pcoll])"
proof -
  have "distinct (concat (map (map fst) dicts)) = pairwise_disjoint (map (map fst) dicts)"
    using assms by (intro distinct_concat_pairwise) simp
  then have "merge_dicts dicts =
           (if pairwise_disjoint (map (map fst) dicts) then Inr (concat dicts)
            else Inl AssertionError)"
    using merge_dicts_distinct [of dicts] merge_dicts_overlap [OF assms] by auto
  moreover have "GetStats feats pcoll = Inl AssertionError \<longleftrightarrow>
            \<not> distinct (stat_keys feats pcoll)"
    using GetStats_distinct [of feats pcoll] GetStats_overlap [of feats pcoll]
    by auto
  ultimately show ?thesis using GetStats_distinct [of feats pcoll] by blast
qed

text \<open>C8 where keys are shared: three dicts, and the features \<open>a\<close> and \<open>a_max\<close>.\<close>

theorem merge_dicts_asserts_disjoint_keys_witness:
  "merge_dicts [[(''a'', 1 :: int)], [(''b'', 2)], [(''a'', 3)]] = Inl AssertionError \<and>
   GetStats [''a'', ''a_max'']
     [[(''a'', ndarray np_int32 [2, 2, 1]), (''a_max'', ndarray np_int32 [2, 1, 1])]] =
     Inl AssertionError"
proof -
  have "stat_keys [''a'', ''a_max'']
     [[(''a'', ndarray np_int32 [2, 2, 1]), (''a_max'', ndarray np_int32 [2, 1, 1])]] =
     [''examples'', ''a_tokens'', ''a_max_tokens'', ''a_max_tokens'', ''a_max_max_tokens'']"
    by code_simp
  then show ?thesis
    using merge_dicts_asserts_disjoint_keys
      [of "[[(''a'', 1 :: int)], [(''b'', 2)], [(''a'', 3)]]" "[''a'', ''a_max'']"
          "[[(''a'', ndarray np_int32 [2, 2, 1]), (''a_max'', ndarray np_int32 [2, 1, 1])]]"]
    by simp
qed

text \<open>
  Claim C10. The key of a maximum is the key of the sum with every \<open>tokens\<close> replaced by
  \<open>max_tokens\<close>. For a feature name \<open>f\<close> that does not contain \<open>tokens\<close> the key
  \<open>f_tokens\<close> becomes \<open>f_max_tokens\<close>; for a name that contains \<open>tokens\<close> it becomes
  something else; for the feature named \<open>tokens\<close>, whose sum has the key
  \<open>tokens_tokens\<close>, it becomes \<open>max_tokens_max_tokens\<close>.
\<close>

theorem rename_max_stat_key:
  "rename_max_stat (k, n) = (str_replace ''tokens'' ''max_tokens'' k, n) \<and>
   (\<not> sublist ''tokens'' f \<longrightarrow> rename_max_stat (f @ ''_tokens'', n) = (f @ ''_max_tokens'', n)) \<and>
   (sublist ''tokens'' f \<longrightarrow> fst (rename_max_stat (f @ ''_tokens'', n)) \<noteq> f @ ''_max_tokens'') \<and>
   count ''tokens'' [(''tokens'', ndarray np_int32 xs)] =
     [(''tokens_tokens'', int (length (filter (\<lambda>x. 1 < x) xs)))] \<and>
   rename_max_stat (''tokens_tokens'', n) = (''max_tokens_max_tokens'', n)"
proof -
  have a: "\<not> sublist ''tokens'' f \<Longrightarrow> rename_max_stat (f @ ''_tokens'', n) = (f @ ''_max_tokens'', n)"
    by (simp add: rename_max_stat_def str_replace_tokens_suffix str_replace_absent)
  have b: "fst (rename_max_stat (f @ ''_tokens'', n)) \<noteq> f @ ''_max_tokens''"
    if "sublist ''tokens'' f"
  proof
    assume "fst (rename_max_stat (f @ ''_tokens'', n)) = f @ ''_max_tokens''"
    then have "str_replace ''tokens'' ''max_tokens'' f = f"
      by (simp add: rename_max_stat_def str_replace_tokens_suffix)
    with str_replace_present [OF that] show False by simp
  qed
  have c: "str_replace ''tokens'' ''max_tokens'' ''tokens_tokens'' = ''max_tokens_max_tokens''"
    by code_simp
  show ?thesis using a b c by (simp add: rename_max_stat_def count_def)
qed

text \<open>C10 at the feature names \<open>targets\<close> and \<open>input_tokens\<close>.\<close>

theorem rename_max_stat_key_witness:
  "rename_max_stat (''targets_tokens'', 7) = (''targets_max_tokens'', 7) \<and>
   fst (rename_max_stat (''input_tokens_tokens'', 7)) \<noteq> ''input_tokens_max_tokens''"
proof -
  have "\<not> sublist ''tokens'' ''targets''" and "sublist ''tokens'' ''input_tokens''"
    by code_simp+
  then show ?thesis
    using rename_max_stat_key [of "''x''" 7 "''targets''" "[]"]
      rename_max_stat_key [of "''x''" 7 "''input_tokens''" "[]"]
    by simp
qed

subsection \<open>Claims about the selection of tasks\<close>

text \<open>
  With no pattern the script compiles its defaults: \<^verbatim>\<open>(.*\Z)\<close> to include, which matches
  every name that holds no newline, and \<^verbatim>\<open>(\Z)\<close> to exclude, which matches the empty
  name only (``Excludes only empty names by default'').
\<close>

lemma default_patterns:
  "select_tasks names None None =
     Inr (filter (\<lambda>t. CHR 0x0A \<notin> set t \<and> t \<noteq> []) names)"
  using select_tasks_filter [of None None names] by (simp add: patterns_of_def)






text \<open>
  Claim C9, where the script departs from it. The include pattern \<open>a|b\<close> selects the
  names \<open>ab\<close> and \<open>a_2\<close>, which the pattern does not match in full: in the string
  \<^verbatim>\<open>(a|b\Z)\<close> that the script compiles, \<^verbatim>\<open>\Z\<close> anchors the last alternative only. The
  two examples of the claim hold: \<open>a\<close> does not select \<open>ab\<close>, and \<open>a*\<close> does not select
  \<open>a_2\<close>.
\<close>

theorem pattern_alternation_not_anchored:
  "select_tasks [''a'', ''ab'', ''a_2'', ''b''] (Some [''a|b'']) None = Inr [''a'', ''ab'', ''a_2'', ''b''] \<and>
   re_compile ''a|b'' = Inr (Alt (Seq (Chr CHR ''a'') Eps) (Seq (Chr CHR ''b'') Eps)) \<and>
   \<not> re_fullmatch (Alt (Seq (Chr CHR ''a'') Eps) (Seq (Chr CHR ''b'') Eps)) ''ab'' \<and>
   \<not> re_fullmatch (Alt (Seq (Chr CHR ''a'') Eps) (Seq (Chr CHR ''b'') Eps)) ''a_2'' \<and>
   select_tasks [''ab''] (Some [''a'']) None = Inr [] \<and>
   select_tasks [''a_2''] (Some [''a*'']) None = Inr []"
  by code_simp

subsection \<open>Claims about the loop over the tasks\<close>

text \<open>
  Claim C4. Let a cache directory be found for a task, other than its output directory,
  and let \<^verbatim>\<open>overwrite\<close> be set. Then the loop body goes on to the next task and changes
  nothing but the log (no directory is deleted, no output directory and no transform is
  added). In the result of \<^verbatim>\<open>run_pipeline\<close> no transform belongs to the task, the output
  directories are exactly those of the tasks with transforms, and a file is as it was
  unless it lies in the output directory of a task whose cache the loop deletes, which
  this task is not.
\<close>

theorem refuse_overwrite_elsewhere:
  assumes "truthy_str (cache_dir task)"
    and "cache_dir task \<noteq> Some (output_dir_of seqio cache_root task)"
    and "overwrite"
  shows "(\<exists>l m. loop_body seqio cache_root max_input_examples overwrite contents task st =
                  Continue (logging l m st)) \<and>
         (\<forall>e st'. run_pipeline seqio fs task_names cache_root max_input_examples excluded_tasks
                     overwrite completed_file_contents = (e, st') \<longrightarrow>
            task \<notin> plan_task ` set (plans st') \<and>
            output_dirs st' = map plan_output_dir (plans st') \<and>
            (\<forall>p. (\<forall>t \<in> set (TaskRegistry seqio).
                     overwrites_in_place seqio cache_root overwrite t \<longrightarrow>
                     \<not> inside (output_dir_of seqio cache_root t) p) \<longrightarrow>
                 map_of (files st') p = map_of fs p)) \<and>
         \<not> overwrites_in_place seqio cache_root overwrite task"
proof -
  have a: "\<exists>l m. loop_body seqio cache_root max_input_examples overwrite contents task st =
                  Continue (logging l m st)"
    using loop_body_refuse [OF assms, of max_input_examples contents st] by (auto split: if_splits)
  have b: "task \<notin> plan_task ` set (plans st') \<and>
            output_dirs st' = map plan_output_dir (plans st') \<and>
            (\<forall>p. (\<forall>t \<in> set (TaskRegistry seqio).
                     overwrites_in_place seqio cache_root overwrite t \<longrightarrow>
                     \<not> inside (output_dir_of seqio cache_root t) p) \<longrightarrow>
                 map_of (files st') p = map_of fs p)"
    if "run_pipeline seqio fs task_names cache_root max_input_examples excluded_tasks
                     overwrite completed_file_contents = (e, st')" for e st'
  proof -
    from that have inv: "loop_invariant seqio cache_root overwrite fs st'"
      by (rule run_pipeline_invariant)
    have "task \<notin> plan_task ` set (plans st')"
    proof
      assume "task \<in> plan_task ` set (plans st')"
      then obtain tp where "tp \<in> set (plans st')" and "plan_task tp = task" by auto
      with inv have "cached_now seqio cache_root overwrite tp" by (simp add: loop_invariant_def)
      with \<open>plan_task tp = task\<close> assms show False by (simp add: cached_now_def)
    qed
    with inv show ?thesis by (simp add: loop_invariant_def)
  qed
  have c: "\<not> overwrites_in_place seqio cache_root overwrite task"
    using assms(2) by (simp add: overwrites_in_place_def)
  from a b c show ?thesis by blast
qed

text \<open>C4 for the task \<open>a\<close>, whose cache is in \<open>/elsewhere/a\<close>, with the output root \<open>/out\<close>.\<close>

lemma example_refuse:
  "truthy_str (cache_dir task_a) \<and>
   cache_dir task_a \<noteq> Some (output_dir_of example_seqio ''/out'' task_a)"
  by code_simp

lemma example_run:
  "fst (run_pipeline example_seqio example_files None ''/out'' None None True None) = None \<and>
   output_dirs (snd (run_pipeline example_seqio example_files None ''/out'' None None True None)) =
     [''/out/c''] \<and>
   map plan_output_dir
     (plans (snd (run_pipeline example_seqio example_files None ''/out'' None None True None))) =
     [''/out/c''] \<and>
   files (snd (run_pipeline example_seqio example_files None ''/out'' None None True None)) =
     [((''/elsewhere/a'', COMPLETED), PlainText []),
      ((''/out/a'', info_json ''train''), JsonLines [JDict []])] \<and>
   log (snd (run_pipeline example_seqio example_files None ''/out'' None None True None)) =
     [(WARNING, Not_overwriting ''/elsewhere/a'' ''/out/a''),
      (WARNING, Overwriting ''b'' ''/out/b''),
      (WARNING, Skipping_no_splits ''b''),
      (PRINT, Caching_task ''c'' [''train'', ''validation''])]"
  by code_simp

theorem refuse_overwrite_elsewhere_witness:
  "(\<exists>l m. loop_body example_seqio ''/out'' None True [] task_a example_state =
            Continue (logging l m example_state)) \<and>
   task_a \<notin> plan_task `
     set (plans (snd (run_pipeline example_seqio example_files None ''/out'' None None True None))) \<and>
   output_dirs (snd (run_pipeline example_seqio example_files None ''/out'' None None True None)) =
     [''/out/c''] \<and>
   map_of (files (snd (run_pipeline example_seqio example_files None ''/out'' None None True None)))
     (''/elsewhere/a'', COMPLETED) = Some (PlainText []) \<and>
   map_of (files (snd (run_pipeline example_seqio example_files None ''/out'' None None True None)))
     (''/out/a'', info_json ''train'') = Some (JsonLines [JDict []])"
proof -
  let ?run = "run_pipeline example_seqio example_files None ''/out'' None None True None"
  have r: "?run = (fst ?run, snd ?run)" by simp
  from refuse_overwrite_elsewhere [of task_a example_seqio "''/out''" True None "[]" example_state
      example_files None None None]
    example_refuse
  have "(\<exists>l m. loop_body example_seqio ''/out'' None True [] task_a example_state =
            Continue (logging l m example_state)) \<and>
        (\<forall>e st'. ?run = (e, st') \<longrightarrow> task_a \<notin> plan_task ` set (plans st'))"
    by simp
  with r have "(\<exists>l m. loop_body example_seqio ''/out'' None True [] task_a example_state =
            Continue (logging l m example_state)) \<and> task_a \<notin> plan_task ` set (plans (snd ?run))"
    by blast
  moreover have "files (snd ?run) =
     [((''/elsewhere/a'', COMPLETED), PlainText []),
      ((''/out/a'', info_json ''train''), JsonLines [JDict []])]"
    using example_run by simp
  ultimately show ?thesis using example_run by simp
qed

text \<open>
  Claim C5, where the script departs from it. The task \<open>b\<close> has no split, its cache is in
  its output directory \<open>/out/b\<close>, and \<^verbatim>\<open>overwrite\<close> is set: the loop body deletes the
  directory first and looks at the splits afterwards, so the cached files are gone when the
  task is skipped. The task is left out of the output directories, as the claim says.
\<close>

theorem no_splits_cache_deleted:
  "splits task_b = [] \<and> cache_dir task_b = Some (output_dir_of example_seqio ''/out'' task_b) \<and>
   map_of (files example_state) (''/out/b'', COMPLETED) = Some (PlainText []) \<and>
   map_of (files example_state) (''/out/b'', tfrecord_files ''train'') = Some (TFRecords 1 []) \<and>
   (case loop_body example_seqio ''/out'' None True [] task_b example_state of
      Continue st' \<Rightarrow>
        output_dirs st' = [] \<and>
        map_of (files st') (''/out/b'', COMPLETED) = None \<and>
        map_of (files st') (''/out/b'', tfrecord_files ''train'') = None \<and>
        log st' = [(WARNING, Overwriting ''b'' ''/out/b''), (WARNING, Skipping_no_splits ''b'')]
    | _ \<Rightarrow> False) \<and>
   map_of (files (snd (run_pipeline example_seqio example_files None ''/out'' None None True None)))
     (''/out/b'', COMPLETED) = None"
  by code_simp

subsection \<open>Claims about \<^verbatim>\<open>PreprocessTask\<close>\<close>

text \<open>
  Claim C6, as amended. Let \<^verbatim>\<open>max_input_examples\<close> be a positive integer \<open>m\<close> (below
  \<open>2^53\<close>) and let the split have \<open>n\<close> shards. Every shard that is not empty feeds
  exactly \<open>floor(m / n)\<close> of its examples to the preprocessing, going through its
  examples again and again when it has fewer, and emits what the preprocessing makes of
  them. When no shard is empty the split reads \<open>n * floor(m / n)\<close> examples, and it
  emits that many when the preprocessing keeps the number of examples.
\<close>

theorem max_input_examples_per_shard:
  assumes "0 < m" and "m < 2 ^ 53"
  shows "(\<forall>i < length (source task split). source task split ! i \<noteq> [] \<longrightarrow>
            emit_examples task split (Some m) i =
              Inr (preprocess_precache task
                     (cyclic_take (shard_quota m task split) (source task split ! i))) \<and>
            length (cyclic_take (shard_quota m task split) (source task split ! i)) =
              nat (m div int (length (source task split))) \<and>
            (\<forall>j < shard_quota m task split.
               cyclic_take (shard_quota m task split) (source task split ! i) ! j =
               (source task split ! i) ! (j mod length (source task split ! i)))) \<and>
         ((\<forall>sh \<in> set (source task split). sh \<noteq> []) \<longrightarrow>
            PreprocessTask task split (Some m) =
              Inr (concat (map (\<lambda>sh. preprocess_precache task
                                       (cyclic_take (shard_quota m task split) sh))
                               (source task split))) \<and>
            sum_list (map (\<lambda>sh. length (cyclic_take (shard_quota m task split) sh))
                          (source task split)) =
              length (source task split) * nat (m div int (length (source task split))) \<and>
            ((\<forall>ds. length (preprocess_precache task ds) = length ds) \<longrightarrow>
               (\<exists>examples. PreprocessTask task split (Some m) = Inr examples \<and>
                  length examples =
                    length (source task split) * nat (m div int (length (source task split))))))"
proof -
  let ?q = "shard_quota m task split"
  let ?shards = "source task split"
  have 1: "\<forall>i < length ?shards. ?shards ! i \<noteq> [] \<longrightarrow>
            emit_examples task split (Some m) i =
              Inr (preprocess_precache task (cyclic_take ?q (?shards ! i))) \<and>
            length (cyclic_take ?q (?shards ! i)) = nat (m div int (length ?shards)) \<and>
            (\<forall>j < ?q. cyclic_take ?q (?shards ! i) ! j =
               (?shards ! i) ! (j mod length (?shards ! i)))"
    using assms(1)
    by (simp add: emit_examples_capped cyclic_take_length cyclic_take_nth shard_quota_def)
  have 2: "PreprocessTask task split (Some m) =
           Inr (concat (map (\<lambda>sh. preprocess_precache task (cyclic_take ?q sh)) ?shards))"
    if "\<forall>sh \<in> set ?shards. sh \<noteq> []"
    using assms(1) that by (rule PreprocessTask_capped)
  have 3: "sum_list (map (\<lambda>sh. length (cyclic_take ?q sh)) ?shards) =
           length ?shards * nat (m div int (length ?shards))"
    if ne: "\<forall>sh \<in> set ?shards. sh \<noteq> []"
  proof -
    have "map (\<lambda>sh. length (cyclic_take ?q sh)) ?shards = map (\<lambda>sh. ?q) ?shards"
      using ne by (intro map_cong) (simp_all add: cyclic_take_length)
    then show ?thesis
      by (simp add: sum_list_replicate map_replicate_const shard_quota_def)
  qed
  have 4: "\<exists>examples. PreprocessTask task split (Some m) = Inr examples \<and>
               length examples = length ?shards * nat (m div int (length ?shards))"
    if ne: "\<forall>sh \<in> set ?shards. sh \<noteq> []"
      and "\<forall>ds. length (preprocess_precache task ds) = length ds"
  proof -
    have "length (concat (map (\<lambda>sh. preprocess_precache task (cyclic_take ?q sh)) ?shards)) =
          sum_list (map (\<lambda>sh. length (cyclic_take ?q sh)) ?shards)"
      using that(2) by (simp add: length_concat comp_def)
    with 2 [OF ne] 3 [OF ne] show ?thesis by simp
  qed
  from 1 2 3 4 show ?thesis by blast
qed

text \<open>C6 for the split \<open>train\<close> of the example task and \<open>m = 5\<close>: two examples per shard.\<close>

lemma example_capped:
  "concat (map (\<lambda>sh. preprocess_precache example_task
                        (cyclic_take (shard_quota 5 example_task ''train'') sh))
               (source example_task ''train'')) =
     [[(''inputs'', py_bytes ''x''), (''targets'', ndarray np_int32 [3, 4, 1])],
      [(''targets'', ndarray np_int32 [5, 1])],
      [(''targets'', ndarray np_int32 [9, 1])],
      [(''targets'', ndarray np_int32 [9, 1])]]"
  by code_simp

lemma example_shards_nonempty: "\<forall>sh \<in> set (source example_task ''train''). sh \<noteq> []"
  by (simp add: example_task_def)

theorem max_input_examples_per_shard_witness:
  "PreprocessTask example_task ''train'' (Some 5) =
     Inr [[(''inputs'', py_bytes ''x''), (''targets'', ndarray np_int32 [3, 4, 1])],
          [(''targets'', ndarray np_int32 [5, 1])],
          [(''targets'', ndarray np_int32 [9, 1])],
          [(''targets'', ndarray np_int32 [9, 1])]]"
  using max_input_examples_per_shard [of 5 example_task "''train''"] example_shards_nonempty
  by (simp add: example_capped)

text \<open>
  Claim C6 as stated fails: with a preprocessing that filters, the first shard emits one
  example where the quota is two; the empty shard of \<open>validation\<close> emits nothing where the
  quota is five; and \<^verbatim>\<open>max_input_examples = 0\<close> is no limit at all.
\<close>

theorem max_input_examples_per_shard_counterexample:
  "emit_examples
     (example_task\<lparr>preprocess_precache := filter (\<lambda>ex. map_of ex ''inputs'' \<noteq> None)\<rparr>)
     ''train'' (Some 5) 0 = Inr [[(''inputs'', py_bytes ''x''), (''targets'', ndarray np_int32 [3, 4, 1])]] \<and>
   nat (5 div int (length (source example_task ''train''))) = 2 \<and>
   emit_examples example_task ''validation'' (Some 5) 0 = Inr [] \<and>
   nat (5 div int (length (source example_task ''validation''))) = 5 \<and>
   emit_examples example_task ''train'' (Some 0) 1 = Inr [[(''targets'', ndarray np_int32 [9, 1])]] \<and>
   nat (0 div int (length (source example_task ''train''))) = 0"
  by code_simp

subsection \<open>Claims about the file \<^verbatim>\<open>COMPLETED\<close>\<close>

text \<open>
  Claim C2. Let a task have transforms in the result of \<^verbatim>\<open>run_pipeline\<close>. Its file
  \<^verbatim>\<open>COMPLETED\<close> is in its output directory. In every run of its transforms, whatever the
  schedule, the writes that fail and the elements that the writing transforms emit: when
  \<^verbatim>\<open>COMPLETED\<close> is written, the record files, the info file and the statistics file of
  every split are complete, and its text is \<^verbatim>\<open>completed_file_contents\<close> (the empty
  string when the argument is left out), with no newline; as long as it is not written,
  the file is as it was before the run; the step that writes it starts from a state in
  which all those writes are complete; and once one of them has failed, it is never
  written.
\<close>

theorem completed_file_written_last:
  assumes "run_pipeline seqio fs task_names cache_root max_input_examples excluded_tasks overwrite
             completed_file_contents = (e, st')"
    and "tp \<in> set (plans st')"
  shows "plan_output_dir tp = output_dir_of seqio cache_root (plan_task tp) \<and>
         (let st = run_plan seqio r tp schedule (start fs') in
           (write_completed_file \<in> set (completed st) \<longrightarrow>
              (\<forall>split \<in> set (splits (plan_task tp)).
                  write_tfrecord split \<in> set (completed st) \<and>
                  write_info split \<in> set (completed st) \<and>
                  write_stats split \<in> set (completed st)) \<and>
              map_of (disk st) (plan_output_dir tp, COMPLETED) =
                Some (PlainText (case completed_file_contents of None \<Rightarrow> [] | Some c \<Rightarrow> c))) \<and>
           (write_completed_file \<notin> set (completed st) \<longrightarrow>
              map_of (disk st) (plan_output_dir tp, COMPLETED) =
              map_of fs' (plan_output_dir tp, COMPLETED)) \<and>
           (\<forall>n. write_completed_file \<notin> set (completed st) \<and>
                write_completed_file \<in> set (completed (run_node seqio r tp n st)) \<longrightarrow>
                n = write_completed_file \<and>
                (\<forall>split \<in> set (splits (plan_task tp)).
                   write_tfrecord split \<in> set (completed st) \<and>
                   write_info split \<in> set (completed st) \<and>
                   write_stats split \<in> set (completed st))) \<and>
           (\<forall>n more. n \<in> set (completion_values tp) \<and> n \<in> set (failed st) \<longrightarrow>
                write_completed_file \<notin> set (completed (run_plan seqio r tp more st))))"
proof -
  let ?st = "run_plan seqio r tp schedule (start fs')"
  let ?all = "\<lambda>st. \<forall>split \<in> set (splits (plan_task tp)).
                  write_tfrecord split \<in> set (completed st) \<and>
                  write_info split \<in> set (completed st) \<and>
                  write_stats split \<in> set (completed st)"
  have sub: "?all st" if "set (completion_values tp) \<subseteq> set (completed st)" for st
    using that by (auto simp: completion_values_split)
  from assms have "loop_invariant seqio cache_root overwrite fs st'"
    by (intro run_pipeline_invariant)
  with assms(2) have dir: "plan_output_dir tp = output_dir_of seqio cache_root (plan_task tp)"
    by (simp add: loop_invariant_def cached_now_def)
  from assms have "built_with (case completed_file_contents of None \<Rightarrow> [] | Some c \<Rightarrow> c)
      max_input_examples st'"
    by (intro run_pipeline_built_with)
  with assms(2) have contents: "plan_completed_file_contents tp =
      (case completed_file_contents of None \<Rightarrow> [] | Some c \<Rightarrow> c)"
    by (simp add: built_with_def)
  have inv: "exec_invariant seqio r tp fs' ?st"
    by (intro run_plan_invariant start_invariant)
  have a: "?all ?st \<and> map_of (disk ?st) (plan_output_dir tp, COMPLETED) =
                Some (PlainText (case completed_file_contents of None \<Rightarrow> [] | Some c \<Rightarrow> c))"
    if w: "write_completed_file \<in> set (completed ?st)"
  proof -
    from inv w have "set (completion_values tp) \<subseteq> set (completed ?st)"
      by (simp add: exec_invariant_def)
    then have "?all ?st" by (rule sub)
    moreover from inv w obtain p c where "node_output seqio r tp write_completed_file = Inr (p, c)"
      and "map_of (disk ?st) p = Some c" unfolding exec_invariant_def by blast
    then have "map_of (disk ?st) (plan_output_dir tp, COMPLETED) =
                Some (PlainText (plan_completed_file_contents tp))"
      by (simp add: node_output_completed)
    ultimately show ?thesis by (simp add: contents)
  qed
  have b: "map_of (disk ?st) (plan_output_dir tp, COMPLETED) =
              map_of fs' (plan_output_dir tp, COMPLETED)"
    if "write_completed_file \<notin> set (completed ?st)"
    using inv that by (simp add: exec_invariant_def)
  have c: "n = write_completed_file \<and> ?all ?st"
    if "write_completed_file \<notin> set (completed ?st)"
      and "write_completed_file \<in> set (completed (run_node seqio r tp n ?st))" for n
    using completed_step [OF that] sub by blast
  have d: "write_completed_file \<notin> set (completed (run_plan seqio r tp more ?st))"
    if "n \<in> set (completion_values tp)" and "n \<in> set (failed ?st)" for n more
  proof
    let ?st2 = "run_plan seqio r tp more ?st"
    assume w: "write_completed_file \<in> set (completed ?st2)"
    have inv2: "exec_invariant seqio r tp fs' ?st2" using inv by (rule run_plan_invariant)
    with w have "set (completion_values tp) \<subseteq> set (completed ?st2)"
      by (simp add: exec_invariant_def)
    with that(1) have "n \<in> set (completed ?st2)" by blast
    moreover from that(2) run_plan_failed_mono [of ?st seqio r tp more]
    have "n \<in> set (failed ?st2)" by blast
    ultimately show False using inv2 by (auto simp: exec_invariant_def)
  qed
  from dir a b c d show ?thesis unfolding Let_def by blast
qed

text \<open>
  C2 for the example task: a schedule that tries \<^verbatim>\<open>COMPLETED\<close> too early and ends with
  it written, and a runner that cannot write a statistics file.
\<close>

lemma example_plan_run:
  "length (plans (snd (run_pipeline example_seqio example_files None ''/out'' None None True
      (Some ''done'')))) = 1"
  by code_simp

lemma example_schedule:
  "(let tp = hd (plans (snd (run_pipeline example_seqio example_files None ''/out'' None None True
             (Some ''done''))));
        st = run_plan example_seqio reliable tp
               [write_completed_file, write_stats ''train'', write_info ''validation'',
                write_tfrecord ''train'', write_completed_file, write_info ''train'',
                write_stats ''validation'', write_tfrecord ''validation'', write_completed_file]
               (start [])
    in completed st =
         [write_completed_file, write_tfrecord ''validation'', write_stats ''validation'',
          write_info ''train'', write_tfrecord ''train'', write_info ''validation'',
          write_stats ''train''] \<and> plan_output_dir tp = ''/out/c'')"
  by code_simp

lemma example_failed_schedule:
  "(let tp = hd (plans (snd (run_pipeline example_seqio example_files None ''/out'' None None True
             (Some ''done''))));
        st = run_plan example_seqio no_stats tp
               [write_stats ''train'', write_info ''validation'',
                write_tfrecord ''train'', write_info ''train'',
                write_stats ''validation'', write_tfrecord ''validation'']
               (start [])
    in failed st = [write_stats ''train''] \<and>
       write_stats ''train'' \<in> set (completion_values tp))"
  by code_simp

theorem completed_file_written_last_witness:
  "(let tp = hd (plans (snd (run_pipeline example_seqio example_files None ''/out'' None None True
             (Some ''done''))));
        st = run_plan example_seqio reliable tp
               [write_completed_file, write_stats ''train'', write_info ''validation'',
                write_tfrecord ''train'', write_completed_file, write_info ''train'',
                write_stats ''validation'', write_tfrecord ''validation'', write_completed_file]
               (start []);
        st2 = run_plan example_seqio no_stats tp
               [write_stats ''train'', write_info ''validation'',
                write_tfrecord ''train'', write_info ''train'',
                write_stats ''validation'', write_tfrecord ''validation'']
               (start [])
    in map_of (disk st) (''/out/c'', COMPLETED) = Some (PlainText ''done'') \<and>
       write_completed_file \<notin>
         set (completed (run_plan example_seqio no_stats tp
                [write_completed_file, write_stats ''train'', write_completed_file] st2)))"
proof -
  let ?run = "run_pipeline example_seqio example_files None ''/out'' None None True (Some ''done'')"
  let ?tp = "hd (plans (snd ?run))"
  have r: "?run = (fst ?run, snd ?run)" by simp
  have "plans (snd ?run) \<noteq> []" using example_plan_run by auto
  then have m: "?tp \<in> set (plans (snd ?run))" by simp
  note t1 = completed_file_written_last [OF r m, where r = reliable and fs' = "[]" and schedule =
      "[write_completed_file, write_stats ''train'', write_info ''validation'',
        write_tfrecord ''train'', write_completed_file, write_info ''train'',
        write_stats ''validation'', write_tfrecord ''validation'', write_completed_file]"]
  note t2 = completed_file_written_last [OF r m, where r = no_stats and fs' = "[]" and schedule =
      "[write_stats ''train'', write_info ''validation'',
        write_tfrecord ''train'', write_info ''train'',
        write_stats ''validation'', write_tfrecord ''validation'']"]
  let ?st = "run_plan example_seqio reliable ?tp
      [write_completed_file, write_stats ''train'', write_info ''validation'',
        write_tfrecord ''train'', write_completed_file, write_info ''train'',
        write_stats ''validation'', write_tfrecord ''validation'', write_completed_file]
      (start [])"
  let ?st2 = "run_plan example_seqio no_stats ?tp
      [write_stats ''train'', write_info ''validation'',
        write_tfrecord ''train'', write_info ''train'',
        write_stats ''validation'', write_tfrecord ''validation'']
      (start [])"
  from example_schedule have w: "write_completed_file \<in> set (completed ?st)"
    and pd: "plan_output_dir ?tp = ''/out/c''"
    by (simp_all add: Let_def)
  note written = conjunct1 [OF conjunct2 [OF t1 [unfolded Let_def]]]
  from written w have "map_of (disk ?st) (plan_output_dir ?tp, COMPLETED) = Some (PlainText ''done'')"
    by simp
  with pd have a: "map_of (disk ?st) (''/out/c'', COMPLETED) = Some (PlainText ''done'')"
    by simp
  from example_failed_schedule have f: "write_stats ''train'' \<in> set (completion_values ?tp)"
    "write_stats ''train'' \<in> set (failed ?st2)"
    by (simp_all add: Let_def)
  note never =
    conjunct2 [OF conjunct2 [OF conjunct2 [OF conjunct2 [OF t2 [unfolded Let_def]]]]]
  from never f have b: "write_completed_file \<notin> set (completed (run_plan example_seqio no_stats ?tp
      [write_completed_file, write_stats ''train'', write_completed_file] ?st2))"
    by blast
  from a b show ?thesis by (simp add: Let_def)
qed

text \<open>
  Claim C7. Let a split of a task give no example, let no write fail, and let the
  transforms of the other splits not raise. \<^verbatim>\<open>GetInfo\<close> gives the empty dict for no
  examples, and \<^verbatim>\<open>GetStats\<close> the dict with \<open>examples = 0\<close>. After the transforms have
  run in the order in which the script adds them, nothing has failed, the info file of the
  split holds the empty dict, its statistics file holds \<open>examples = 0\<close>, and
  \<^verbatim>\<open>COMPLETED\<close> is written.
\<close>

theorem empty_split_completes:
  assumes "split \<in> set (splits (plan_task tp))"
    and "PreprocessTask (plan_task tp) split (plan_max_input_examples tp) = Inr []"
    and "\<forall>p. io_ok r p"
    and "\<forall>n \<in> set (completion_values tp).
           n \<notin> {write_tfrecord split, write_info split, write_stats split} \<longrightarrow>
           (\<exists>out. node_output seqio r tp n = Inr out)"
  shows "GetInfo seqio k [] = Inr [JDict []] \<and>
         GetStats feats [] = Inr [[(''examples'', 0)]] \<and>
         (let st = run_plan seqio r tp (completion_values tp @ [write_completed_file]) (start fs)
          in failed st = [] \<and>
             map_of (disk st) (plan_output_dir tp, info_json split) = Some (JsonLines [JDict []]) \<and>
             map_of (disk st) (plan_output_dir tp, stats_json split) =
               Some (JsonLines [JDict [(''examples'', JInt 0)]]) \<and>
             write_completed_file \<in> set (completed st) \<and>
             map_of (disk st) (plan_output_dir tp, COMPLETED) =
               Some (PlainText (plan_completed_file_contents tp)))"
proof -
  let ?dir = "plan_output_dir tp"
  let ?st1 = "run_plan seqio r tp (completion_values tp) (start fs)"
  let ?st = "run_plan seqio r tp (completion_values tp @ [write_completed_file]) (start fs)"
  have oi: "node_output seqio r tp (write_info split) = Inr ((?dir, info_json split), JsonLines [JDict []])"
    using assms(2) by (simp add: node_output_def GetInfo_empty)
  have os: "node_output seqio r tp (write_stats split) =
      Inr ((?dir, stats_json split), JsonLines [JDict [(''examples'', JInt 0)]])"
    using assms(2) by (simp add: node_output_def GetStats_empty stats_json_of_def)
  have ot: "\<exists>out. node_output seqio r tp (write_tfrecord split) = Inr out"
    using assms(2) by (simp add: node_output_def)
  have all: "\<forall>n \<in> set (completion_values tp). n \<in> set (completion_values tp) \<and>
      (\<exists>out. node_output seqio r tp n = Inr out)"
    using assms(4) oi os ot by auto
  from run_sinks [OF all assms(3), of "start fs"]
  have f1: "failed ?st1 = []" and c1: "set (completed ?st1) = set (completion_values tp)"
    by (simp_all add: start_def)
  have nm: "write_completed_file \<notin> set (completed ?st1)"
    using c1 completion_values_sinks by simp
  have st: "?st = run_node seqio r tp write_completed_file ?st1"
    by (simp add: run_plan_def)
  have st': "?st = ?st1\<lparr>disk := AList.update (?dir, COMPLETED)
                  (PlainText (plan_completed_file_contents tp)) (disk ?st1),
        completed := write_completed_file # completed ?st1\<rparr>"
    unfolding st using c1 nm f1 assms(3) by (intro run_node_marker) simp_all
  have inv: "exec_invariant seqio r tp fs ?st"
    by (intro run_plan_invariant start_invariant)
  have mem: "write_info split \<in> set (completed ?st)" "write_stats split \<in> set (completed ?st)"
    using c1 assms(1) by (simp_all add: st' completion_values_split)
  from inv mem(1) obtain p c where "node_output seqio r tp (write_info split) = Inr (p, c)"
    and "map_of (disk ?st) p = Some c" unfolding exec_invariant_def by blast
  with oi have i: "map_of (disk ?st) (?dir, info_json split) = Some (JsonLines [JDict []])" by simp
  from inv mem(2) obtain p c where "node_output seqio r tp (write_stats split) = Inr (p, c)"
    and "map_of (disk ?st) p = Some c" unfolding exec_invariant_def by blast
  with os have s: "map_of (disk ?st) (?dir, stats_json split) =
      Some (JsonLines [JDict [(''examples'', JInt 0)]])" by simp
  have w: "write_completed_file \<in> set (completed ?st)" by (simp add: st')
  have m: "map_of (disk ?st) (?dir, COMPLETED) = Some (PlainText (plan_completed_file_contents tp))"
    by (simp add: st' update_conv')
  have f: "failed ?st = []" using f1 by (simp add: st')
  from f i s w m show ?thesis unfolding Let_def by (simp add: GetInfo_empty GetStats_empty)
qed

text \<open>C7 for the split \<open>validation\<close> of the example task, which has no example.\<close>

lemma example_validation_empty:
  "PreprocessTask (plan_task example_plan) ''validation'' (plan_max_input_examples example_plan) =
     Inr [] \<and>
   ''validation'' \<in> set (splits (plan_task example_plan)) \<and>
   completion_values example_plan =
     [write_tfrecord ''train'', write_info ''train'', write_stats ''train'',
      write_tfrecord ''validation'', write_info ''validation'', write_stats ''validation''] \<and>
   plan_output_dir example_plan = ''/out/c'' \<and> plan_completed_file_contents example_plan = ''done''"
  by code_simp

lemma example_train_sinks:
  "(case node_output example_seqio reliable example_plan (write_tfrecord ''train'') of
      Inl e \<Rightarrow> False | Inr out \<Rightarrow> True) \<and>
   (case node_output example_seqio reliable example_plan (write_info ''train'') of
      Inl e \<Rightarrow> False | Inr out \<Rightarrow> True) \<and>
   (case node_output example_seqio reliable example_plan (write_stats ''train'') of
      Inl e \<Rightarrow> False | Inr out \<Rightarrow> True)"
  by code_simp

theorem empty_split_completes_witness:
  "(let st = run_plan example_seqio reliable example_plan
               [write_tfrecord ''train'', write_info ''train'', write_stats ''train'',
                write_tfrecord ''validation'', write_info ''validation'',
                write_stats ''validation'', write_completed_file] (start example_files)
    in failed st = [] \<and>
       map_of (disk st) (''/out/c'', info_json ''validation'') = Some (JsonLines [JDict []]) \<and>
       map_of (disk st) (''/out/c'', stats_json ''validation'') =
         Some (JsonLines [JDict [(''examples'', JInt 0)]]) \<and>
       write_completed_file \<in> set (completed st) \<and>
       map_of (disk st) (''/out/c'', COMPLETED) = Some (PlainText ''done''))"
proof -
  have io: "\<forall>p. io_ok reliable p" by (simp add: reliable_def)
  have others: "\<forall>n \<in> set (completion_values example_plan).
           n \<notin> {write_tfrecord ''validation'', write_info ''validation'',
                 write_stats ''validation''} \<longrightarrow>
           (\<exists>out. node_output example_seqio reliable example_plan n = Inr out)"
    using example_validation_empty example_train_sinks by (auto split: sum.splits)
  from empty_split_completes [OF _ _ io others, where k = 1 and feats = "[]" and fs = example_files]
    example_validation_empty
  show ?thesis by (simp add: Let_def)
qed

end
